theory Spec2Isabelle
  imports Main "HOL-Library.Char_ord" "HOL-Library.List_Lexorder"
begin

section \<open>The story tree of tree.h\<close>

text \<open>
  \<^verbatim>\<open>tree.h\<close> defines \<^verbatim>\<open>Node<U>\<close> (id, data, a vector of child pointers) and
  \<^verbatim>\<open>Tree<T>\<close> (a root pointer and an \<^verbatim>\<open>unordered_map\<close> from id to the owning
  node pointer) with \<^verbatim>\<open>createRoot\<close>, \<^verbatim>\<open>addNode\<close>, \<^verbatim>\<open>findNode\<close>,
  \<^verbatim>\<open>printAll\<close>, \<^verbatim>\<open>playGame\<close> and the destructor.

  Pointers are modelled as optional addresses into a store of cells: \<open>None\<close> is
  \<^verbatim>\<open>nullptr\<close>, \<open>Some a\<close> is the address of cell \<open>a\<close>. A cell holds \<open>Some node\<close> while
  the node is live and \<open>None\<close> once it has been deleted. \<^verbatim>\<open>new\<close> appends a cell.
  Dereferencing \<^verbatim>\<open>nullptr\<close>, an address outside the store or a deleted cell is
  undefined behaviour in C++; every operation that dereferences returns an option, and
  \<open>None\<close> stands for that undefined behaviour.
\<close>

type_synonym ptr = "nat option"

record 'a Node =
  id_node :: string
  data :: 'a
  children :: "ptr list"

text \<open>
  The \<^verbatim>\<open>unordered_map\<close> is an association list with one entry per key; the order of
  the list is the iteration order of the map, which C++ leaves unspecified. The field
  \<open>store\<close> is the free store holding the nodes this tree allocated.
\<close>

record 'a Tree =
  root :: ptr
  nodesMap :: "(string \<times> ptr) list"
  store :: "'a Node option list"

text \<open>\<^verbatim>\<open>Tree() : root(nullptr) {}\<close>\<close>

definition Tree_init :: "'a Tree" where
  "Tree_init = \<lparr>root = None, nodesMap = [], store = []\<rparr>"

subsection \<open>Characters, trimming and number parsing\<close>

text \<open>\<^verbatim>\<open>isspace\<close> and \<^verbatim>\<open>isdigit\<close> in the default "C" locale.\<close>

definition isspace :: "char \<Rightarrow> bool" where
  "isspace c = (c = CHR 0x20 \<or> (CHR 0x09 \<le> c \<and> c \<le> CHR 0x0D))"

definition isdigit :: "char \<Rightarrow> bool" where
  "isdigit c = (CHR ''0'' \<le> c \<and> c \<le> CHR ''9'')"

text \<open>
  \<^verbatim>\<open>trim_copy\<close>: \<open>start\<close> moves right over leading white space, \<open>end\<close> moves left
  over trailing white space down to \<open>start\<close>, and the substring between them is
  returned.
\<close>

definition trim_copy :: "string \<Rightarrow> string" where
  "trim_copy s = rev (dropWhile isspace (rev (dropWhile isspace s)))"

text \<open>The decimal value of a string of digits, most significant digit first.\<close>

definition digit_val :: "char \<Rightarrow> int" where
  "digit_val c = of_char c - 48"

definition decimal :: "string \<Rightarrow> int" where
  "decimal s = foldl (\<lambda>acc c. 10 * acc + digit_val c) 0 s"

definition INT_MAX :: int where
  "INT_MAX = 2147483647"

definition LLONG_MAX :: int where
  "LLONG_MAX = 9223372036854775807"

text \<open>
  \<^verbatim>\<open>stoi\<close> and \<^verbatim>\<open>stoll\<close> on a non-empty string of digits, the only arguments the
  code passes them: the decimal value, or \<open>None\<close> for the \<^verbatim>\<open>out_of_range\<close> exception
  when the value does not fit \<^verbatim>\<open>int\<close> (32 bits) or \<^verbatim>\<open>long long\<close> (64 bits).
\<close>

definition stoi :: "string \<Rightarrow> int option" where
  "stoi s = (let v = decimal s in if v \<le> INT_MAX then Some v else None)"

definition stoll :: "string \<Rightarrow> int option" where
  "stoll s = (let v = decimal s in if v \<le> LLONG_MAX then Some v else None)"

text \<open>The text \<^verbatim>\<open>operator<<\<close> writes for a \<^verbatim>\<open>size_t\<close>.\<close>

function show_nat :: "nat \<Rightarrow> string" where
  "show_nat n = (if n < 10 then [char_of (48 + n)]
                 else show_nat (n div 10) @ [char_of (48 + n mod 10)])"
  by pat_completeness auto
termination
  by (relation "measure (\<lambda>n. n)") auto

text \<open>
  Output written to \<^verbatim>\<open>cout\<close> is a list of chunks, in the order written; the text on
  the stream is their concatenation. \<open>endl\<close> is the newline and \<open>line s\<close> is \<open>s\<close>
  followed by \<^verbatim>\<open>endl\<close>.
\<close>

definition endl :: string where
  "endl = [CHR 0x0A]"

definition line :: "string \<Rightarrow> string" where
  "line s = s @ endl"

subsection \<open>The store and the map\<close>

definition deref :: "'a Tree \<Rightarrow> ptr \<Rightarrow> 'a Node option" where
  "deref t p = (case p of None \<Rightarrow> None
                | Some a \<Rightarrow> if a < length (store t) then store t ! a else None)"

text \<open>A write through a pointer: \<open>None\<close> when the pointer cannot be dereferenced.\<close>

definition modify :: "ptr \<Rightarrow> ('a Node \<Rightarrow> 'a Node) \<Rightarrow> 'a Tree \<Rightarrow> 'a Tree option" where
  "modify p f t = (case p of None \<Rightarrow> None
     | Some a \<Rightarrow> if a < length (store t)
                then (case store t ! a of None \<Rightarrow> None
                      | Some n \<Rightarrow> Some (t\<lparr>store := (store t)[a := Some (f n)]\<rparr>))
                else None)"

text \<open>\<^verbatim>\<open>new Node<T>(nodeID, value)\<close>: a fresh cell, with no children.\<close>

definition new_Node :: "string \<Rightarrow> 'a \<Rightarrow> 'a Tree \<Rightarrow> ptr \<times> 'a Tree" where
  "new_Node nodeID v t =
     (Some (length (store t)),
      t\<lparr>store := store t @ [Some \<lparr>id_node = nodeID, data = v, children = []\<rparr>]\<rparr>)"

text \<open>
  \<^verbatim>\<open>m[k] = v\<close>: the entry of \<open>k\<close> is overwritten where it is, a missing key is
  added. Where a new key lands in the iteration order is unspecified in C++; here it is
  the end of the list, and the properties of \<open>printAll\<close> and of the destructor below are
  proved for every order of the list.
\<close>

fun map_assign :: "(string \<times> ptr) list \<Rightarrow> string \<Rightarrow> ptr \<Rightarrow> (string \<times> ptr) list" where
  "map_assign [] k v = [(k, v)]"
| "map_assign ((k', v') # m) k v =
     (if k' = k then (k, v) # m else (k', v') # map_assign m k v)"

text \<open>
  Reading \<^verbatim>\<open>m[k]\<close>: \<^verbatim>\<open>operator[]\<close> inserts a value-initialised entry
  (\<^verbatim>\<open>nullptr\<close>) when the key is missing, and returns the entry's value.
\<close>

definition map_subscript :: "(string \<times> ptr) list \<Rightarrow> string \<Rightarrow> ptr \<times> (string \<times> ptr) list" where
  "map_subscript m k = (case map_of m k of
       Some v \<Rightarrow> (v, m)
     | None \<Rightarrow> (None, m @ [(k, None)]))"

subsection \<open>Construction\<close>

definition createRoot :: "string \<Rightarrow> 'a \<Rightarrow> 'a Tree \<Rightarrow> 'a Tree option" where
  "createRoot ident v t =
     (case map_of (nodesMap t) ident of
        Some node \<Rightarrow>
          (case modify node (\<lambda>n. n\<lparr>data := v\<rparr>) t of
             None \<Rightarrow> None
           | Some t' \<Rightarrow> Some (t'\<lparr>root := node\<rparr>))
      | None \<Rightarrow>
          (let (node, t') = new_Node ident v t
           in Some (t'\<lparr>nodesMap := map_assign (nodesMap t') ident node, root := node\<rparr>)))"

text \<open>
  The first two steps of \<^verbatim>\<open>addNode\<close>: look the id up and create the node when it is
  missing. \<open>dflt\<close> is \<^verbatim>\<open>T()\<close>, the default-constructed payload.
\<close>

definition ensure :: "string \<Rightarrow> 'a \<Rightarrow> 'a Tree \<Rightarrow> ptr \<times> 'a Tree" where
  "ensure ident v t =
     (case map_of (nodesMap t) ident of
        Some p \<Rightarrow> (p, t)
      | None \<Rightarrow>
          (let (p, t') = new_Node ident v t
           in (p, t'\<lparr>nodesMap := map_assign (nodesMap t') ident p\<rparr>)))"

definition addNode :: "'a \<Rightarrow> string \<Rightarrow> string \<Rightarrow> 'a \<Rightarrow> 'a Tree \<Rightarrow> 'a Tree option" where
  "addNode dflt parentID childID v t =
     (let (parent, t1) = ensure parentID dflt t;
          (child, t2) = ensure childID v t1
      in case deref t2 parent of
           None \<Rightarrow> None
         | Some pn \<Rightarrow>
             (let already = list_ex (\<lambda>pch. pch = child) (children pn)
              in if \<not> already
                 then modify parent (\<lambda>n. n\<lparr>children := children n @ [child]\<rparr>) t2
                 else Some t2))"

text \<open>\<^verbatim>\<open>findNode\<close> returns the pointer (\<^verbatim>\<open>nullptr\<close> when not found) and the tree it leaves.\<close>

definition findNode :: "string \<Rightarrow> 'a Tree \<Rightarrow> ptr \<times> 'a Tree" where
  "findNode ident t = (case map_of (nodesMap t) ident of
       Some p \<Rightarrow> (p, t)
     | None \<Rightarrow> (None, t))"

text \<open>A sequence of construction calls on a tree, stopping at undefined behaviour.\<close>

datatype 'a call = CreateRoot string 'a | AddNode string string 'a

fun apply_call :: "'a \<Rightarrow> 'a call \<Rightarrow> 'a Tree \<Rightarrow> 'a Tree option" where
  "apply_call dflt (CreateRoot ident v) t = createRoot ident v t"
| "apply_call dflt (AddNode parentID childID v) t = addNode dflt parentID childID v t"

fun build :: "'a \<Rightarrow> 'a call list \<Rightarrow> 'a Tree \<Rightarrow> 'a Tree option" where
  "build dflt [] t = Some t"
| "build dflt (c # cs) t = (case apply_call dflt c t of
       None \<Rightarrow> None
     | Some t' \<Rightarrow> build dflt cs t')"

subsection \<open>printAll\<close>

text \<open>The key \<^verbatim>\<open>printAll\<close> pairs with an id in \<^verbatim>\<open>numericKeys\<close>.\<close>

definition sortKey :: "string \<Rightarrow> int" where
  "sortKey s =
     (let allDigits = (s \<noteq> [] \<and> list_all isdigit s)
      in if allDigits
         then (case stoll s of Some val \<Rightarrow> val | None \<Rightarrow> LLONG_MAX)
         else LLONG_MAX)"

definition numericKeys :: "string list \<Rightarrow> (string \<times> int) list" where
  "numericKeys ids = map (\<lambda>s. (s, sortKey s)) ids"

text \<open>The comparator passed to \<^verbatim>\<open>sort\<close>.\<close>

definition keyLess :: "string \<times> int \<Rightarrow> string \<times> int \<Rightarrow> bool" where
  "keyLess a b = (if snd a \<noteq> snd b then snd a < snd b else fst a < fst b)"

text \<open>
  \<^verbatim>\<open>std::sort\<close> is modelled by insertion sort with the comparator. The comparator is
  a strict total order on the pairs and the pairs are distinct (one per key of the
  map), so every sorting algorithm returns the same list (\<open>sort_by_unique\<close> below).
\<close>

fun insert_by :: "('b \<Rightarrow> 'b \<Rightarrow> bool) \<Rightarrow> 'b \<Rightarrow> 'b list \<Rightarrow> 'b list" where
  "insert_by lt x [] = [x]"
| "insert_by lt x (y # ys) = (if lt x y then x # y # ys else y # insert_by lt x ys)"

fun sort_by :: "('b \<Rightarrow> 'b \<Rightarrow> bool) \<Rightarrow> 'b list \<Rightarrow> 'b list" where
  "sort_by lt [] = []"
| "sort_by lt (x # xs) = insert_by lt x (sort_by lt xs)"

definition sortedKeys :: "'a Tree \<Rightarrow> (string \<times> int) list" where
  "sortedKeys t = sort_by keyLess (numericKeys (map fst (nodesMap t)))"

text \<open>The ids in the order in which \<^verbatim>\<open>printAll\<close> prints their entries.\<close>

definition printAll_ids :: "'a Tree \<Rightarrow> string list" where
  "printAll_ids t = map fst (sortedKeys t)"

text \<open>
  \<open>toText\<close> is the conversion of a payload to text: the identity when \<^verbatim>\<open>T\<close> is
  \<^verbatim>\<open>string\<close>, what \<^verbatim>\<open>operator<<\<close> writes otherwise.
\<close>

definition dataText :: "('a \<Rightarrow> string) \<Rightarrow> 'a Node \<Rightarrow> string" where
  "dataText toText n = trim_copy (toText (data n))"

fun childLines :: "'a Tree \<Rightarrow> ptr list \<Rightarrow> string list option" where
  "childLines t [] = Some []"
| "childLines t (c # cs) =
     (case deref t c of
        None \<Rightarrow> None
      | Some cn \<Rightarrow>
          (case childLines t cs of
             None \<Rightarrow> None
           | Some ls \<Rightarrow> Some (line (''  Child -> '' @ id_node cn) # ls)))"

text \<open>
  The body of the output loop of \<^verbatim>\<open>printAll\<close> for one id: the chunks written and
  the tree that \<^verbatim>\<open>nodesMap[id]\<close> leaves.
\<close>

definition printEntry :: "('a \<Rightarrow> string) \<Rightarrow> string \<Rightarrow> 'a Tree \<Rightarrow> (string list \<times> 'a Tree) option" where
  "printEntry toText ident t =
     (let (node, m) = map_subscript (nodesMap t) ident;
          t1 = t\<lparr>nodesMap := m\<rparr>
      in case deref t1 node of
           None \<Rightarrow> None
         | Some n \<Rightarrow>
             (case (if children n = [] then Some [line ''  Child -> (none)'']
                    else childLines t1 (children n)) of
                None \<Rightarrow> None
              | Some cl \<Rightarrow>
                  Some ([line (''Node '' @ ident @ '': '' @ dataText toText n)]
                        @ cl @ [endl], t1)))"

text \<open>The output loop over the sorted pairs.\<close>

fun printEntries :: "('a \<Rightarrow> string) \<Rightarrow> (string \<times> int) list \<Rightarrow> 'a Tree \<Rightarrow> (string list \<times> 'a Tree) option" where
  "printEntries toText [] t = Some ([], t)"
| "printEntries toText (p # ps) t =
     (case printEntry toText (fst p) t of
        None \<Rightarrow> None
      | Some (out, t1) \<Rightarrow>
          (case printEntries toText ps t1 of
             None \<Rightarrow> None
           | Some (out', t2) \<Rightarrow> Some (out @ out', t2)))"

text \<open>The chunks the loop body writes for one id.\<close>

definition entryChunks :: "('a \<Rightarrow> string) \<Rightarrow> 'a Tree \<Rightarrow> string \<Rightarrow> string list" where
  "entryChunks toText t ident =
     (case printEntry toText ident t of None \<Rightarrow> [] | Some (out, t') \<Rightarrow> out)"

definition printAll :: "('a \<Rightarrow> string) \<Rightarrow> 'a Tree \<Rightarrow> (string list \<times> 'a Tree) option" where
  "printAll toText t =
     (if nodesMap t = [] then Some ([line ''Tree is empty.''], t)
      else (case printEntries toText (sortedKeys t) t of
              None \<Rightarrow> None
            | Some (out, t') \<Rightarrow>
                Some ([line ''===== Story Tree =====''] @ out
                      @ [line ''======================''], t')))"

subsection \<open>playGame\<close>

text \<open>The numbered options: option \<open>i + 1\<close> shows the text of child \<open>i\<close>.\<close>

fun optionLines :: "('a \<Rightarrow> string) \<Rightarrow> 'a Tree \<Rightarrow> nat \<Rightarrow> ptr list \<Rightarrow> string list option" where
  "optionLines toText t i [] = Some []"
| "optionLines toText t i (child # cs) =
     (case deref t child of
        None \<Rightarrow> None
      | Some cn \<Rightarrow>
          (case optionLines toText t (i + 1) cs of
             None \<Rightarrow> None
           | Some ls \<Rightarrow> Some (line (show_nat (i + 1) @ ''. '' @ dataText toText cn) # ls)))"

text \<open>
  The top of the loop body: the text of the current node and, when it has children,
  the options and the prompt. Returns the chunks written and the children.
\<close>

definition enterNode :: "('a \<Rightarrow> string) \<Rightarrow> 'a Tree \<Rightarrow> ptr \<Rightarrow> (string list \<times> ptr list) option" where
  "enterNode toText t current =
     (case deref t current of
        None \<Rightarrow> None
      | Some cur \<Rightarrow>
          if children cur = [] then Some ([line (dataText toText cur)], [])
          else (case optionLines toText t 0 (children cur) of
                  None \<Rightarrow> None
                | Some ls \<Rightarrow>
                    Some ([line (dataText toText cur), line ''Choose your next action:'']
                          @ ls @ [''Selection: ''], children cur)))"

text \<open>
  The rest of the loop body after a line was read: the chunk written and the node the
  next iteration is at.
\<close>

definition selection :: "ptr \<Rightarrow> ptr list \<Rightarrow> string \<Rightarrow> string \<times> ptr" where
  "selection current kids l =
     (let input = trim_copy l
      in if input = [] then
           (line ''Please enter a number corresponding to your choice.'', current)
         else if \<not> list_all isdigit input then
           (line ''Invalid selection. Please enter a number.'', current)
         else (case stoi input of
                 None \<Rightarrow> (line ''Invalid selection. Please enter a valid number.'', current)
               | Some choice \<Rightarrow>
                   if choice < 1 \<or> nat choice > length kids then
                     (line ''Choice out of range. Please select a valid option.'', current)
                   else (endl, kids ! (nat choice - 1))))"

text \<open>
  The \<^verbatim>\<open>while (true)\<close> loop. The input is the list of lines \<^verbatim>\<open>getline\<close> reads
  before it fails (end of input); every iteration that goes round again has consumed
  one line.
\<close>

fun playLoop :: "('a \<Rightarrow> string) \<Rightarrow> 'a Tree \<Rightarrow> ptr \<Rightarrow> string list \<Rightarrow> string list option" where
  "playLoop toText t current [] =
     (case enterNode toText t current of
        None \<Rightarrow> None
      | Some (out, kids) \<Rightarrow>
          if kids = [] then
            Some (out @ [line ''There are no further paths.'',
                         line ''Your journey ends here.'', endl])
          else Some (out @ [endl, line ''Input error or EOF. Ending adventure.'']))"
| "playLoop toText t current (l # rest) =
     (case enterNode toText t current of
        None \<Rightarrow> None
      | Some (out, kids) \<Rightarrow>
          if kids = [] then
            Some (out @ [line ''There are no further paths.'',
                         line ''Your journey ends here.'', endl])
          else (case selection current kids l of
                  (notice, next) \<Rightarrow>
                    (case playLoop toText t next rest of
                       None \<Rightarrow> None
                     | Some out' \<Rightarrow> Some (out @ [notice] @ out'))))"

definition playGame :: "('a \<Rightarrow> string) \<Rightarrow> 'a Tree \<Rightarrow> string list \<Rightarrow> (string list \<times> 'a Tree) option" where
  "playGame toText t inp =
     (if root t = None then Some ([line ''No root node. Cannot play game.''], t)
      else (case playLoop toText t (root t) inp of
              None \<Rightarrow> None
            | Some out \<Rightarrow>
                Some ([line ''===== Begin Adventure ====='', endl] @ out
                      @ [line ''===== Adventure Complete =====''], t)))"

subsection \<open>The destructor\<close>

text \<open>
  \<^verbatim>\<open>delete p.second\<close> for every entry of the map. Deleting \<^verbatim>\<open>nullptr\<close> does
  nothing; deleting a cell that is not live (a second delete) is undefined behaviour.
  The addresses are returned in the order they were released.
\<close>

fun deleteAll :: "(string \<times> ptr) list \<Rightarrow> 'a Node option list \<Rightarrow> (nat list \<times> 'a Node option list) option" where
  "deleteAll [] st = Some ([], st)"
| "deleteAll ((k, p) # m) st =
     (case p of
        None \<Rightarrow> deleteAll m st
      | Some a \<Rightarrow>
          if a < length st \<and> st ! a \<noteq> None
          then (case deleteAll m (st[a := None]) of
                  None \<Rightarrow> None
                | Some (released, st') \<Rightarrow> Some (a # released, st'))
          else None)"

definition Tree_destroy :: "'a Tree \<Rightarrow> (nat list \<times> 'a Tree) option" where
  "Tree_destroy t =
     (case deleteAll (nodesMap t) (store t) of
        None \<Rightarrow> None
      | Some (released, st') \<Rightarrow>
          Some (released, \<lparr>root = None, nodesMap = [], store = st'\<rparr>))"

subsection \<open>The representation invariant\<close>

text \<open>
  Every key of the map occurs once and maps to a live node carrying that id; every
  cell of the store is a live node registered under its id; children and root point to
  registered nodes; no children list repeats a pointer.
\<close>

definition registered :: "'a Tree \<Rightarrow> ptr set" where
  "registered t = snd ` set (nodesMap t)"

definition entry_ok :: "'a Tree \<Rightarrow> string \<times> ptr \<Rightarrow> bool" where
  "entry_ok t e = (case deref t (snd e) of None \<Rightarrow> False | Some n \<Rightarrow> id_node n = fst e)"

definition cell_ok :: "'a Tree \<Rightarrow> nat \<Rightarrow> bool" where
  "cell_ok t a = (case store t ! a of
       None \<Rightarrow> False
     | Some n \<Rightarrow> map_of (nodesMap t) (id_node n) = Some (Some a)
                \<and> distinct (children n)
                \<and> set (children n) \<subseteq> registered t)"

definition tree_ok :: "'a Tree \<Rightarrow> bool" where
  "tree_ok t = (distinct (map fst (nodesMap t))
           \<and> list_all (entry_ok t) (nodesMap t)
           \<and> list_all (cell_ok t) [0..<length (store t)]
           \<and> (root t = None \<or> root t \<in> registered t))"

text \<open>The payload of the node registered under an id.\<close>

definition payload :: "'a Tree \<Rightarrow> string \<Rightarrow> 'a option" where
  "payload t ident = (case map_of (nodesMap t) ident of
       None \<Rightarrow> None
     | Some p \<Rightarrow> map_option data (deref t p))"

subsection \<open>A small story\<close>

text \<open>
  Root "1" with the children "2" and "3", built by one \<^verbatim>\<open>createRoot\<close> and two
  \<^verbatim>\<open>addNode\<close> calls on a tree of strings.
\<close>

definition example_calls :: "string call list" where
  "example_calls =
     [CreateRoot ''1'' '' start '', AddNode ''1'' ''2'' ''left'', AddNode ''1'' ''3'' ''right'']"

definition example_root :: "string Node" where
  "example_root = \<lparr>id_node = ''1'', data = '' start '', children = [Some 1, Some 2]\<rparr>"

definition example_tree :: "string Tree" where
  "example_tree =
     \<lparr>root = Some 0,
      nodesMap = [(''1'', Some 0), (''2'', Some 1), (''3'', Some 2)],
      store = [Some example_root,
               Some \<lparr>id_node = ''2'', data = ''left'', children = []\<rparr>,
               Some \<lparr>id_node = ''3'', data = ''right'', children = []\<rparr>]\<rparr>"

text \<open>A tree with the ids "10", "2", "apple" and "1".\<close>

definition order_calls :: "string call list" where
  "order_calls = [AddNode ''10'' ''2'' ''x'', AddNode ''apple'' ''1'' '' y '']"

definition order_tree :: "string Tree" where
  "order_tree =
     \<lparr>root = None,
      nodesMap = [(''10'', Some 0), (''2'', Some 1), (''apple'', Some 2), (''1'', Some 3)],
      store = [Some \<lparr>id_node = ''10'', data = [], children = [Some 1]\<rparr>,
               Some \<lparr>id_node = ''2'', data = ''x'', children = []\<rparr>,
               Some \<lparr>id_node = ''apple'', data = [], children = [Some 3]\<rparr>,
               Some \<lparr>id_node = ''1'', data = '' y '', children = []\<rparr>]\<rparr>"

text \<open>A tree in which the parents "A" and "B" share the child "C", with root "A".\<close>

definition shared_calls :: "string call list" where
  "shared_calls = [CreateRoot ''A'' ''a'', AddNode ''A'' ''C'' ''x'', AddNode ''B'' ''C'' ''x'']"

definition shared_tree :: "string Tree" where
  "shared_tree =
     \<lparr>root = Some 0,
      nodesMap = [(''A'', Some 0), (''C'', Some 1), (''B'', Some 2)],
      store = [Some \<lparr>id_node = ''A'', data = ''a'', children = [Some 1]\<rparr>,
               Some \<lparr>id_node = ''C'', data = ''x'', children = []\<rparr>,
               Some \<lparr>id_node = ''B'', data = [], children = [Some 1]\<rparr>]\<rparr>"

text \<open>
  Two trees whose ids meet at the key \<open>LLONG_MAX\<close>: one with the id "!" and an
  all-digit id too large for \<^verbatim>\<open>long long\<close>, one with the largest id
  \<^verbatim>\<open>stoll\<close> parses and an id one digit longer.
\<close>

definition overflow_calls :: "string call list" where
  "overflow_calls = [AddNode ''!'' ''99999999999999999999'' ''x'']"

definition overflow_tree :: "string Tree" where
  "overflow_tree =
     \<lparr>root = None,
      nodesMap = [(''!'', Some 0), (''99999999999999999999'', Some 1)],
      store = [Some \<lparr>id_node = ''!'', data = [], children = [Some 1]\<rparr>,
               Some \<lparr>id_node = ''99999999999999999999'', data = ''x'', children = []\<rparr>]\<rparr>"

definition limit_calls :: "string call list" where
  "limit_calls =
     [CreateRoot ''9223372036854775807'' ''a'', CreateRoot ''10000000000000000000'' ''b'']"

definition limit_tree :: "string Tree" where
  "limit_tree =
     \<lparr>root = Some 1,
      nodesMap = [(''9223372036854775807'', Some 0), (''10000000000000000000'', Some 1)],
      store = [Some \<lparr>id_node = ''9223372036854775807'', data = ''a'', children = []\<rparr>,
               Some \<lparr>id_node = ''10000000000000000000'', data = ''b'', children = []\<rparr>]\<rparr>"

section \<open>Properties\<close>

lemma Tree_init_ok: "tree_ok Tree_init"
  by (simp add: tree_ok_def Tree_init_def)

lemma example_build: "build [] example_calls Tree_init = Some example_tree"
  by code_simp

lemma example_ok: "tree_ok example_tree"
  by code_simp

lemma order_build: "build [] order_calls Tree_init = Some order_tree"
  by code_simp

lemma order_ok: "tree_ok order_tree"
  by code_simp

lemma shared_build: "build [] shared_calls Tree_init = Some shared_tree"
  by code_simp

lemma shared_ok: "tree_ok shared_tree"
  by code_simp

lemma example_deref: "deref example_tree (Some 0) = Some example_root"
  by code_simp

lemma example_children: "children example_root \<noteq> []"
  by code_simp

subsection \<open>Dereferencing in a well-formed tree\<close>

lemma registered_deref:
  assumes "tree_ok t" "p \<in> registered t"
  shows "\<exists>n. deref t p = Some n"
proof -
  from assms(2) obtain k where "(k, p) \<in> set (nodesMap t)"
    by (auto simp: registered_def)
  with assms(1) have "entry_ok t (k, p)"
    by (auto simp: tree_ok_def list_all_iff)
  then show ?thesis
    by (auto simp: entry_ok_def split: option.splits)
qed

lemma deref_cell:
  assumes "tree_ok t" "deref t p = Some n"
  shows "\<exists>a. p = Some a \<and> a < length (store t) \<and> store t ! a = Some n \<and> cell_ok t a"
proof -
  from assms(2) obtain a where a: "p = Some a" "a < length (store t)" "store t ! a = Some n"
    by (auto simp: deref_def split: option.splits if_splits)
  with assms(1) have "cell_ok t a"
    by (auto simp: tree_ok_def list_all_iff)
  with a show ?thesis by simp
qed

lemma deref_children:
  assumes "tree_ok t" "deref t p = Some n"
  shows "set (children n) \<subseteq> registered t" "distinct (children n)"
  using deref_cell [OF assms] by (auto simp: cell_ok_def)

lemma children_deref:
  assumes "tree_ok t" "deref t p = Some n"
  shows "\<forall>c \<in> set (children n). \<exists>m. deref t c = Some m"
  using deref_children(1) [OF assms] registered_deref [OF assms(1)] by blast

lemma optionLines_total:
  "\<forall>c \<in> set cs. \<exists>n. deref t c = Some n \<Longrightarrow> \<exists>ls. optionLines toText t i cs = Some ls"
proof (induction cs arbitrary: i)
  case Nil
  then show ?case by simp
next
  case (Cons c cs)
  from Cons.prems obtain n where n: "deref t c = Some n" by auto
  from Cons.prems have "\<forall>c \<in> set cs. \<exists>n. deref t c = Some n" by simp
  from Cons.IH [OF this, of "i + 1"] obtain ls
    where "optionLines toText t (i + 1) cs = Some ls" by blast
  with n show ?case by simp
qed

lemma enterNode_total:
  assumes "tree_ok t" "deref t p = Some n"
  shows "\<exists>out. enterNode toText t p = Some (out, children n)"
proof -
  from optionLines_total [OF children_deref [OF assms]]
  obtain ls where "optionLines toText t 0 (children n) = Some ls" by blast
  with assms(2) show ?thesis by (simp add: enterNode_def)
qed

subsection \<open>The construction calls keep the invariant\<close>

lemma tree_ok_iff:
  "tree_ok t \<longleftrightarrow>
     distinct (map fst (nodesMap t))
     \<and> (\<forall>(k, p) \<in> set (nodesMap t). \<exists>a n. p = Some a \<and> a < length (store t)
            \<and> store t ! a = Some n \<and> id_node n = k)
     \<and> (\<forall>a < length (store t). \<exists>n. store t ! a = Some n
            \<and> map_of (nodesMap t) (id_node n) = Some (Some a)
            \<and> distinct (children n) \<and> set (children n) \<subseteq> registered t)
     \<and> (root t = None \<or> root t \<in> registered t)"
proof -
  have e: "list_all (entry_ok t) (nodesMap t) \<longleftrightarrow>
        (\<forall>(k, p) \<in> set (nodesMap t). \<exists>a n. p = Some a \<and> a < length (store t)
            \<and> store t ! a = Some n \<and> id_node n = k)"
    by (auto simp: list_all_iff entry_ok_def deref_def split: option.splits if_splits)
       (fastforce split: if_splits)+
  have c: "list_all (cell_ok t) [0..<length (store t)] \<longleftrightarrow>
        (\<forall>a < length (store t). \<exists>n. store t ! a = Some n
            \<and> map_of (nodesMap t) (id_node n) = Some (Some a)
            \<and> distinct (children n) \<and> set (children n) \<subseteq> registered t)"
  proof -
    have "cell_ok t a \<longleftrightarrow> (\<exists>n. store t ! a = Some n
            \<and> map_of (nodesMap t) (id_node n) = Some (Some a)
            \<and> distinct (children n) \<and> set (children n) \<subseteq> registered t)" for a
      by (cases "store t ! a") (simp_all add: cell_ok_def)
    then show ?thesis by (auto simp add: list_all_iff)
  qed
  show ?thesis unfolding tree_ok_def e c by simp
qed

lemma map_assign_absent: "map_of m k = None \<Longrightarrow> map_assign m k v = m @ [(k, v)]"
  by (induction m) (auto split: if_splits)


lemma map_of_registered: "map_of (nodesMap t) k = Some p \<Longrightarrow> p \<in> registered t"
  by (auto simp: registered_def dest!: map_of_SomeD intro: rev_image_eqI)

lemma modify_ok:
  assumes ok: "tree_ok t" and d: "deref t p = Some n"
    and f: "id_node (f n) = id_node n" "distinct (children (f n))"
           "set (children (f n)) \<subseteq> registered t"
  shows "\<exists>a. p = Some a \<and> a < length (store t)
           \<and> modify p f t = Some (t\<lparr>store := (store t)[a := Some (f n)]\<rparr>)
           \<and> tree_ok (t\<lparr>store := (store t)[a := Some (f n)]\<rparr>)"
proof -
  from d obtain a where a: "p = Some a" "a < length (store t)" "store t ! a = Some n"
    by (auto simp: deref_def split: option.splits if_splits)
  let ?t = "t\<lparr>store := (store t)[a := Some (f n)]\<rparr>"
  have m: "modify p f t = Some ?t" using a by (simp add: modify_def)
  have r: "registered ?t = registered t" by (simp add: registered_def)
  have "tree_ok ?t"
    unfolding tree_ok_iff r
  proof (intro conjI)
    show "distinct (map fst (nodesMap ?t))" using ok by (simp add: tree_ok_iff)
    show "\<forall>(k, q) \<in> set (nodesMap ?t). \<exists>b m. q = Some b \<and> b < length (store ?t)
            \<and> store ?t ! b = Some m \<and> id_node m = k"
    proof (clarify)
      fix k q assume "(k, q) \<in> set (nodesMap ?t)"
      with ok obtain b m where b: "q = Some b" "b < length (store t)"
          "store t ! b = Some m" "id_node m = k"
        by (fastforce simp: tree_ok_iff)
      show "\<exists>b m. q = Some b \<and> b < length (store ?t) \<and> store ?t ! b = Some m \<and> id_node m = k"
        using a b f(1) by (cases "b = a") auto
    qed
    show "\<forall>b < length (store ?t). \<exists>m. store ?t ! b = Some m
            \<and> map_of (nodesMap ?t) (id_node m) = Some (Some b)
            \<and> distinct (children m) \<and> set (children m) \<subseteq> registered t"
    proof (intro allI impI)
      fix b assume "b < length (store ?t)"
      then have bl: "b < length (store t)" by simp
      with ok obtain m where m: "store t ! b = Some m"
          "map_of (nodesMap t) (id_node m) = Some (Some b)"
          "distinct (children m)" "set (children m) \<subseteq> registered t"
        by (auto simp: tree_ok_iff)
      show "\<exists>m. store ?t ! b = Some m
            \<and> map_of (nodesMap ?t) (id_node m) = Some (Some b)
            \<and> distinct (children m) \<and> set (children m) \<subseteq> registered t"
        using a bl m f by (cases "b = a") auto
    qed
    show "root ?t = None \<or> root ?t \<in> registered t" using ok by (simp add: tree_ok_iff)
  qed
  with a m show ?thesis by simp
qed

lemma new_registered_ok:
  assumes ok: "tree_ok t" and absent: "map_of (nodesMap t) k = None"
  shows "tree_ok (t\<lparr>store := store t @ [Some \<lparr>id_node = k, data = v, children = []\<rparr>],
                     nodesMap := nodesMap t @ [(k, Some (length (store t)))]\<rparr>)"
    (is "tree_ok ?t")
proof -
  have r: "registered ?t = insert (Some (length (store t))) (registered t)"
    by (auto simp: registered_def)
  have nk: "k \<notin> fst ` set (nodesMap t)" using absent by (simp add: map_of_eq_None_iff)
  show ?thesis unfolding tree_ok_iff r
  proof (intro conjI)
    show "distinct (map fst (nodesMap ?t))" using ok nk by (simp add: tree_ok_iff)
    show "\<forall>(k', q) \<in> set (nodesMap ?t). \<exists>b m. q = Some b \<and> b < length (store ?t)
            \<and> store ?t ! b = Some m \<and> id_node m = k'"
    proof (clarify)
      fix k' q assume "(k', q) \<in> set (nodesMap ?t)"
      then consider "(k', q) \<in> set (nodesMap t)" | "k' = k" "q = Some (length (store t))"
        by auto
      then show "\<exists>b m. q = Some b \<and> b < length (store ?t) \<and> store ?t ! b = Some m \<and> id_node m = k'"
      proof cases
        case 1
        with ok obtain b m where b: "q = Some b" "b < length (store t)"
          "store t ! b = Some m" "id_node m = k'"
          by (fastforce simp: tree_ok_iff)
        then show ?thesis by (auto simp: nth_append)
      next
        case 2
        then show ?thesis by simp
      qed
    qed
    show "\<forall>b < length (store ?t). \<exists>m. store ?t ! b = Some m
            \<and> map_of (nodesMap ?t) (id_node m) = Some (Some b)
            \<and> distinct (children m)
            \<and> set (children m) \<subseteq> insert (Some (length (store t))) (registered t)"
    proof (intro allI impI)
      fix b assume "b < length (store ?t)"
      then consider "b < length (store t)" | "b = length (store t)" by fastforce
      then show "\<exists>m. store ?t ! b = Some m
            \<and> map_of (nodesMap ?t) (id_node m) = Some (Some b)
            \<and> distinct (children m)
            \<and> set (children m) \<subseteq> insert (Some (length (store t))) (registered t)"
      proof cases
        case 1
        with ok obtain m where m: "store t ! b = Some m"
          "map_of (nodesMap t) (id_node m) = Some (Some b)"
          "distinct (children m)" "set (children m) \<subseteq> registered t"
          by (auto simp: tree_ok_iff)
        with 1 show ?thesis by (auto simp: nth_append map_add_Some_iff)
      next
        case 2
        with absent show ?thesis by (simp add: map_add_def)
      qed
    qed
    show "root ?t = None \<or> root ?t \<in> insert (Some (length (store t))) (registered t)"
      using ok by (auto simp add: tree_ok_iff)
  qed
qed

lemma ensure_Some: "map_of (nodesMap t) k = Some q \<Longrightarrow> ensure k v t = (q, t)"
  by (simp add: ensure_def)

lemma ensure_None:
  "map_of (nodesMap t) k = None \<Longrightarrow>
   ensure k v t = (Some (length (store t)),
                   t\<lparr>store := store t @ [Some \<lparr>id_node = k, data = v, children = []\<rparr>],
                     nodesMap := nodesMap t @ [(k, Some (length (store t)))]\<rparr>)"
  by (simp add: ensure_def new_Node_def map_assign_absent)

lemma deref_append:
  "deref t q = Some n \<Longrightarrow> deref (t\<lparr>store := store t @ cs, nodesMap := m\<rparr>) q = Some n"
  by (auto simp: deref_def nth_append split: option.splits if_splits)

lemma ensure_props:
  assumes ok: "tree_ok t" and e: "ensure k v t = (p, t')"
  shows "tree_ok t'"
    and "map_of (nodesMap t') k = Some p"
    and "\<And>k' q. map_of (nodesMap t) k' = Some q \<Longrightarrow> map_of (nodesMap t') k' = Some q"
    and "\<And>q n. deref t q = Some n \<Longrightarrow> deref t' q = Some n"
    and "root t' = root t"
    and "map_of (nodesMap t) k = None \<Longrightarrow>
           p = Some (length (store t))
           \<and> deref t' p = Some \<lparr>id_node = k, data = v, children = []\<rparr>
           \<and> (\<forall>k'. k' \<noteq> k \<longrightarrow> map_of (nodesMap t') k' = map_of (nodesMap t) k')"
    and "\<And>q. map_of (nodesMap t) k = Some q \<Longrightarrow> t' = t \<and> p = q"
proof -
  show "tree_ok t'"
  proof (cases "map_of (nodesMap t) k")
    case None
    from new_registered_ok [OF ok None, of v] e show ?thesis by (auto simp add: ensure_None [OF None])
  next
    case (Some q)
    with e ok show ?thesis by (simp add: ensure_Some)
  qed
  show "map_of (nodesMap t') k = Some p"
    using e by (cases "map_of (nodesMap t) k") (auto simp: ensure_None ensure_Some map_add_def)
  show "map_of (nodesMap t') k' = Some q" if "map_of (nodesMap t) k' = Some q" for k' q
    using e that
    by (cases "map_of (nodesMap t) k") (auto simp: ensure_None ensure_Some map_add_def)
  show "deref t' q = Some n" if "deref t q = Some n" for q n
  proof (cases "map_of (nodesMap t) k")
    case None
    from deref_append [OF that] e show ?thesis by (auto simp: ensure_None [OF None])
  next
    case (Some r)
    with e that show ?thesis by (simp add: ensure_Some)
  qed
  show "root t' = root t"
    using e by (cases "map_of (nodesMap t) k") (auto simp: ensure_None ensure_Some)
  show "p = Some (length (store t))
           \<and> deref t' p = Some \<lparr>id_node = k, data = v, children = []\<rparr>
           \<and> (\<forall>k'. k' \<noteq> k \<longrightarrow> map_of (nodesMap t') k' = map_of (nodesMap t) k')"
    if "map_of (nodesMap t) k = None"
    using e by (auto simp: ensure_None [OF that] deref_def map_add_def split: option.splits)
  show "t' = t \<and> p = q" if "map_of (nodesMap t) k = Some q" for q
    using e by (auto simp: ensure_Some [OF that])
qed

lemma root_update_ok:
  assumes "tree_ok t" "r \<in> registered t"
  shows "tree_ok (t\<lparr>root := r\<rparr>)"
proof -
  have "registered (t\<lparr>root := r\<rparr>) = registered t" by (simp add: registered_def)
  with assms show ?thesis unfolding tree_ok_iff by (simp del: map_of_eq_Some_iff)
qed

lemma createRoot_ok:
  assumes ok: "tree_ok t"
  shows "\<exists>t'. createRoot ident v t = Some t' \<and> tree_ok t'"
proof (cases "map_of (nodesMap t) ident")
  case None
  have "tree_ok (t\<lparr>store := store t @ [Some \<lparr>id_node = ident, data = v, children = []\<rparr>],
                     nodesMap := nodesMap t @ [(ident, Some (length (store t)))],
                     root := Some (length (store t))\<rparr>)"
    using root_update_ok [OF new_registered_ok [OF ok None, of v], of "Some (length (store t))"]
    by (simp add: registered_def)
  with None show ?thesis
    by (simp add: createRoot_def new_Node_def map_assign_absent)
next
  case (Some node)
  from registered_deref [OF ok map_of_registered [OF Some]]
  obtain n where n: "deref t node = Some n" by blast
  have 1: "id_node (n\<lparr>data := v\<rparr>) = id_node n" by simp
  have 2: "distinct (children (n\<lparr>data := v\<rparr>))"
    using deref_children(2) [OF ok n] by simp
  have 3: "set (children (n\<lparr>data := v\<rparr>)) \<subseteq> registered t"
    using deref_children(1) [OF ok n] by simp
  from modify_ok [OF ok n, of "\<lambda>n. n\<lparr>data := v\<rparr>", OF 1 2 3]
  obtain a where a: "node = Some a" "a < length (store t)"
      "modify node (\<lambda>n. n\<lparr>data := v\<rparr>) t = Some (t\<lparr>store := (store t)[a := Some (n\<lparr>data := v\<rparr>)]\<rparr>)"
      "tree_ok (t\<lparr>store := (store t)[a := Some (n\<lparr>data := v\<rparr>)]\<rparr>)"
    by blast
  have "tree_ok (t\<lparr>store := (store t)[a := Some (n\<lparr>data := v\<rparr>)], root := node\<rparr>)"
    using root_update_ok [OF a(4), of node] map_of_registered [OF Some]
    by (simp add: registered_def)
  with Some a show ?thesis by (simp add: createRoot_def)
qed


lemma addNode_result:
  assumes ok: "tree_ok t"
  obtains parent child t1 t2 pn a where
    "ensure parentID dflt t = (parent, t1)" and "ensure childID v t1 = (child, t2)"
    and "tree_ok t1" and "tree_ok t2"
    and "deref t2 parent = Some pn" and "parent = Some a" and "a < length (store t2)"
    and "child \<in> registered t2"
    and "addNode dflt parentID childID v t =
           Some (if child \<in> set (children pn) then t2
                 else t2\<lparr>store := (store t2)[a := Some (pn\<lparr>children := children pn @ [child]\<rparr>)]\<rparr>)"
    and "tree_ok (if child \<in> set (children pn) then t2
                 else t2\<lparr>store := (store t2)[a := Some (pn\<lparr>children := children pn @ [child]\<rparr>)]\<rparr>)"
proof -
  obtain parent t1 where e1: "ensure parentID dflt t = (parent, t1)" by (cases "ensure parentID dflt t")
  obtain child t2 where e2: "ensure childID v t1 = (child, t2)" by (cases "ensure childID v t1")
  note p1 = ensure_props [OF ok e1]
  note p2 = ensure_props [OF p1(1) e2]
  from registered_deref [OF p1(1) map_of_registered [OF p1(2)]]
  obtain pn1 where "deref t1 parent = Some pn1" by blast
  from p2(4) [OF this] obtain pn where pn: "deref t2 parent = Some pn" by blast
  have creg: "child \<in> registered t2" using map_of_registered [OF p2(2)] .
  let ?f = "\<lambda>n. n\<lparr>children := children n @ [child]\<rparr>"
  let ?t = "\<lambda>a. t2\<lparr>store := (store t2)[a := Some (pn\<lparr>children := children pn @ [child]\<rparr>)]\<rparr>"
  from pn obtain a where a: "parent = Some a" "a < length (store t2)"
    by (auto simp: deref_def split: option.splits if_splits)
  have ex: "list_ex (\<lambda>pch. pch = child) (children pn) \<longleftrightarrow> child \<in> set (children pn)"
    by (auto simp: list_ex_iff)
  show thesis
  proof (cases "child \<in> set (children pn)")
    case True
    have "addNode dflt parentID childID v t = Some t2"
      using e1 e2 pn True by (simp add: addNode_def ex)
    with True show ?thesis using that [OF e1 e2 p1(1) p2(1) pn a creg] p2(1) by simp
  next
    case False
    have 1: "id_node (?f pn) = id_node pn" by simp
    have 2: "distinct (children (?f pn))"
      using deref_children(2) [OF p2(1) pn] False by simp
    have 3: "set (children (?f pn)) \<subseteq> registered t2"
      using deref_children(1) [OF p2(1) pn] creg by simp
    from modify_ok [OF p2(1) pn, of ?f, OF 1 2 3] a
    have m: "modify parent ?f t2 = Some (?t a)" "tree_ok (?t a)" by auto
    have "addNode dflt parentID childID v t = Some (?t a)"
      using e1 e2 pn False m(1) by (simp add: addNode_def ex)
    with False show ?thesis using that [OF e1 e2 p1(1) p2(1) pn a creg] m(2) by simp
  qed
qed

lemma addNode_ok:
  assumes "tree_ok t"
  shows "\<exists>t'. addNode dflt parentID childID v t = Some t' \<and> tree_ok t'"
  using addNode_result [OF assms, of parentID dflt childID v] by metis

text \<open>Every tree built by construction calls from a well-formed tree is well formed.\<close>

lemma apply_call_ok:
  assumes "tree_ok t"
  shows "\<exists>t'. apply_call dflt c t = Some t' \<and> tree_ok t'"
  using createRoot_ok [OF assms] addNode_ok [OF assms] by (cases c) auto

lemma build_ok:
  "tree_ok t \<Longrightarrow> \<exists>t'. build dflt cs t = Some t' \<and> tree_ok t'"
proof (induction cs arbitrary: t)
  case Nil
  then show ?case by simp
next
  case (Cons c cs)
  from apply_call_ok [OF Cons.prems, of dflt c]
  obtain t1 where t1: "apply_call dflt c t = Some t1" "tree_ok t1" by blast
  from Cons.IH [OF t1(2)] t1(1) show ?case by simp
qed

lemma build_append:
  "build dflt (cs @ ds) t = (case build dflt cs t of None \<Rightarrow> None | Some t' \<Rightarrow> build dflt ds t')"
  by (induction cs arbitrary: t) (auto split: option.splits)

text \<open>What a successful \<^verbatim>\<open>addNode\<close> leaves: both ids registered and the edge present.\<close>

lemma addNode_old:
  assumes ok: "tree_ok t" and r: "addNode dflt parentID childID v t = Some t'"
  shows "\<And>k q. map_of (nodesMap t) k = Some q \<Longrightarrow> map_of (nodesMap t') k = Some q"
    and "\<And>q n. deref t q = Some n \<Longrightarrow>
           \<exists>n'. deref t' q = Some n' \<and> data n' = data n \<and> id_node n' = id_node n"
    and "root t' = root t"
proof -
  from addNode_result [OF ok, of parentID dflt childID v]
  obtain parent child t1 t2 pn a where
    e1: "ensure parentID dflt t = (parent, t1)" and e2: "ensure childID v t1 = (child, t2)"
    and ok1: "tree_ok t1" and ok2: "tree_ok t2"
    and pn: "deref t2 parent = Some pn" and a: "parent = Some a" "a < length (store t2)"
    and res: "addNode dflt parentID childID v t =
           Some (if child \<in> set (children pn) then t2
                 else t2\<lparr>store := (store t2)[a := Some (pn\<lparr>children := children pn @ [child]\<rparr>)]\<rparr>)"
    by metis
  note p1 = ensure_props [OF ok e1]
  note p2 = ensure_props [OF ok1 e2]
  from r res have t': "t' = (if child \<in> set (children pn) then t2
                 else t2\<lparr>store := (store t2)[a := Some (pn\<lparr>children := children pn @ [child]\<rparr>)]\<rparr>)"
    by simp
  show "map_of (nodesMap t') k = Some q" if "map_of (nodesMap t) k = Some q" for k q
    using p2(3) [OF p1(3) [OF that]] t' by simp
  show "\<exists>n'. deref t' q = Some n' \<and> data n' = data n \<and> id_node n' = id_node n"
    if "deref t q = Some n" for q n
  proof -
    from p2(4) [OF p1(4) [OF that]] have d2: "deref t2 q = Some n" .
    show ?thesis
    proof (cases "q = parent")
      case True
      with d2 pn have "n = pn" by simp
      with True a t' pn show ?thesis by (auto simp: deref_def)
    next
      case False
      with d2 a t' show ?thesis
        by (auto simp: deref_def split: option.splits if_splits)
    qed
  qed
  show "root t' = root t" using p1(5) p2(5) t' by simp
qed

lemma addNode_new_child:
  assumes ok: "tree_ok t" and r: "addNode dflt parentID childID v t = Some t'"
    and absent: "map_of (nodesMap t) childID = None"
  shows "payload t' childID = Some (if parentID = childID then dflt else v)"
proof -
  from addNode_result [OF ok, of parentID dflt childID v]
  obtain parent child t1 t2 pn a where
    e1: "ensure parentID dflt t = (parent, t1)" and e2: "ensure childID v t1 = (child, t2)"
    and ok1: "tree_ok t1" and ok2: "tree_ok t2"
    and pn: "deref t2 parent = Some pn" and a: "parent = Some a" "a < length (store t2)"
    and res: "addNode dflt parentID childID v t =
           Some (if child \<in> set (children pn) then t2
                 else t2\<lparr>store := (store t2)[a := Some (pn\<lparr>children := children pn @ [child]\<rparr>)]\<rparr>)"
    by metis
  note p1 = ensure_props [OF ok e1]
  note p2 = ensure_props [OF ok1 e2]
  from r res have t': "t' = (if child \<in> set (children pn) then t2
                 else t2\<lparr>store := (store t2)[a := Some (pn\<lparr>children := children pn @ [child]\<rparr>)]\<rparr>)"
    by simp
  have m': "map_of (nodesMap t') childID = Some child" using p2(2) t' by simp
  have keep: "\<exists>n'. deref t' q = Some n' \<and> data n' = data n" if d2: "deref t2 q = Some n" for q n
  proof (cases "q = parent")
    case True
    with d2 pn have "n = pn" by simp
    with True a t' pn show ?thesis by (auto simp: deref_def)
  next
    case False
    with d2 a t' show ?thesis
      by (auto simp: deref_def split: option.splits if_splits)
  qed
  show ?thesis
  proof (cases "parentID = childID")
    case True
    with absent have "map_of (nodesMap t) parentID = None" by simp
    from p1(6) [OF this] have "deref t1 parent = Some \<lparr>id_node = parentID, data = dflt, children = []\<rparr>"
      by blast
    moreover from p1(2) True have "map_of (nodesMap t1) childID = Some parent" by simp
    from p2(7) [OF this] have "t2 = t1" "child = parent" by simp_all
    ultimately have "deref t2 child = Some \<lparr>id_node = parentID, data = dflt, children = []\<rparr>"
      by simp
    from keep [OF this] m' True show ?thesis by (auto simp: payload_def)
  next
    case False
    have "map_of (nodesMap t1) childID = None"
    proof (cases "map_of (nodesMap t) parentID")
      case None
      from p1(6) [OF None] False absent show ?thesis by auto
    next
      case (Some q)
      from p1(7) [OF Some] absent show ?thesis by simp
    qed
    from p2(6) [OF this] have "deref t2 child = Some \<lparr>id_node = childID, data = v, children = []\<rparr>"
      by blast
    from keep [OF this] m' False show ?thesis by (auto simp: payload_def)
  qed
qed

lemma payload_old:
  assumes ok: "tree_ok t" and r: "addNode dflt parentID childID v t = Some t'"
    and q: "map_of (nodesMap t) k = Some q"
  shows "map_of (nodesMap t') k = Some q \<and> payload t' k = payload t k"
proof -
  from registered_deref [OF ok map_of_registered [OF q]]
  obtain n where n: "deref t q = Some n" by blast
  from addNode_old(2) [OF ok r n] obtain n' where "deref t' q = Some n'" "data n' = data n"
    by blast
  with addNode_old(1) [OF ok r q] q n show ?thesis by (simp add: payload_def)
qed

subsection \<open>Payloads under addNode\<close>

text \<open>
  C2, as amended. In a well-formed tree \<^verbatim>\<open>addNode(parentID, childID, value)\<close>
  succeeds and leaves a well-formed tree. If \<open>childID\<close> was not registered and differs
  from \<open>parentID\<close>, the node registered under \<open>childID\<close> afterwards holds \<open>value\<close>;
  if \<open>childID\<close> was not registered and equals \<open>parentID\<close>, the parent step has already
  created the node with the default payload and \<open>value\<close> is discarded. If \<open>childID\<close>
  was registered, its pointer and its payload are unchanged. A second
  \<^verbatim>\<open>addNode(parentID, childID, value2)\<close> leaves the payload of \<open>childID\<close> as the
  first call left it.
\<close>

theorem addNode_payload:
  assumes "tree_ok t"
  shows "\<exists>t'. addNode dflt parentID childID v t = Some t' \<and> tree_ok t'
           \<and> (map_of (nodesMap t) childID = None \<longrightarrow>
                payload t' childID = Some (if parentID = childID then dflt else v))
           \<and> (\<forall>q. map_of (nodesMap t) childID = Some q \<longrightarrow>
                map_of (nodesMap t') childID = Some q
                \<and> payload t' childID = payload t childID)
           \<and> (\<forall>v2. \<exists>t''. addNode dflt parentID childID v2 t' = Some t''
                \<and> payload t'' childID = payload t' childID)"
proof -
  from addNode_ok [OF assms, of dflt parentID childID v]
  obtain t' where t': "addNode dflt parentID childID v t = Some t'" "tree_ok t'" by blast
  have new: "payload t' childID = Some (if parentID = childID then dflt else v)"
    if "map_of (nodesMap t) childID = None"
    using addNode_new_child [OF assms t'(1) that] .
  have old: "map_of (nodesMap t') childID = Some q \<and> payload t' childID = payload t childID"
    if "map_of (nodesMap t) childID = Some q" for q
    using payload_old [OF assms t'(1) that] .
  have reg: "\<exists>q. map_of (nodesMap t') childID = Some q"
  proof (cases "map_of (nodesMap t) childID")
    case None
    from new [OF None] show ?thesis by (auto simp: payload_def split: option.splits)
  next
    case (Some q)
    from old [OF Some] show ?thesis by blast
  qed
  have again: "\<exists>t''. addNode dflt parentID childID v2 t' = Some t''
                \<and> payload t'' childID = payload t' childID" for v2
  proof -
    from addNode_ok [OF t'(2), of dflt parentID childID v2]
    obtain t'' where t'': "addNode dflt parentID childID v2 t' = Some t''" by blast
    from reg obtain q where "map_of (nodesMap t') childID = Some q" by blast
    from payload_old [OF t'(2) t'' this] t'' show ?thesis by simp
  qed
  have "addNode dflt parentID childID v t = Some t' \<and> tree_ok t'
           \<and> (map_of (nodesMap t) childID = None \<longrightarrow>
                payload t' childID = Some (if parentID = childID then dflt else v))
           \<and> (\<forall>q. map_of (nodesMap t) childID = Some q \<longrightarrow>
                map_of (nodesMap t') childID = Some q
                \<and> payload t' childID = payload t childID)
           \<and> (\<forall>v2. \<exists>t''. addNode dflt parentID childID v2 t' = Some t''
                \<and> payload t'' childID = payload t' childID)"
  proof (intro conjI impI allI)
    show "addNode dflt parentID childID v t = Some t'" by (rule t'(1))
    show "tree_ok t'" by (rule t'(2))
    show "payload t' childID = Some (if parentID = childID then dflt else v)"
      if "map_of (nodesMap t) childID = None" using new [OF that] .
    show "map_of (nodesMap t') childID = Some q"
      if "map_of (nodesMap t) childID = Some q" for q using old [OF that] by simp
    show "payload t' childID = payload t childID"
      if "map_of (nodesMap t) childID = Some q" for q using old [OF that] by simp
    show "\<exists>t''. addNode dflt parentID childID v2 t' = Some t''
                \<and> payload t'' childID = payload t' childID" for v2
      using again .
  qed
  then show ?thesis by (rule exI)
qed

theorem addNode_payload_witness:
  "tree_ok example_tree
   \<and> map_of (nodesMap example_tree) ''4'' = None
   \<and> map_of (nodesMap example_tree) ''2'' = Some (Some 1)
   \<and> payload example_tree ''2'' = Some ''left''
   \<and> (\<exists>t'. addNode [] ''1'' ''4'' ''new'' example_tree = Some t'
          \<and> payload t' ''4'' = Some ''new''
          \<and> (\<exists>t''. addNode [] ''1'' ''4'' ''newer'' t' = Some t''
                 \<and> payload t'' ''4'' = Some ''new''))
   \<and> (\<exists>t'. addNode [] ''1'' ''2'' ''other'' example_tree = Some t'
          \<and> payload t' ''2'' = Some ''left'')"
proof -
  have a: "map_of (nodesMap example_tree) ''4'' = None" by code_simp
  have b: "map_of (nodesMap example_tree) ''2'' = Some (Some 1)" by code_simp
  have c: "payload example_tree ''2'' = Some ''left''" by code_simp
  have d: "''1'' \<noteq> ''4''" by simp
  from addNode_payload [OF example_ok, of "[]" "''1''" "''4''" "''new''"]
  obtain t1 where t1: "addNode [] ''1'' ''4'' ''new'' example_tree = Some t1"
      "map_of (nodesMap example_tree) ''4'' = None \<longrightarrow>
         payload t1 ''4'' = Some (if ''1'' = ''4'' then [] else ''new'')"
      "\<forall>v2. \<exists>t''. addNode [] ''1'' ''4'' v2 t1 = Some t''
                \<and> payload t'' ''4'' = payload t1 ''4''"
    by (elim exE conjE)
  from t1(2) a d have p1: "payload t1 ''4'' = Some ''new''" by simp
  from t1(3) p1 have "\<exists>t''. addNode [] ''1'' ''4'' ''newer'' t1 = Some t''
                 \<and> payload t'' ''4'' = Some ''new''" by simp
  with t1(1) p1
  have 1: "\<exists>t'. addNode [] ''1'' ''4'' ''new'' example_tree = Some t'
          \<and> payload t' ''4'' = Some ''new''
          \<and> (\<exists>t''. addNode [] ''1'' ''4'' ''newer'' t' = Some t''
                 \<and> payload t'' ''4'' = Some ''new'')"
    by blast
  from addNode_payload [OF example_ok, of "[]" "''1''" "''2''" "''other''"]
  obtain t2 where t2: "addNode [] ''1'' ''2'' ''other'' example_tree = Some t2"
      "\<forall>q. map_of (nodesMap example_tree) ''2'' = Some q \<longrightarrow>
                map_of (nodesMap t2) ''2'' = Some q
                \<and> payload t2 ''2'' = payload example_tree ''2''"
    by (elim exE conjE)
  from t2(2) b c have "payload t2 ''2'' = Some ''left''" by simp
  with t2(1)
  have 2: "\<exists>t'. addNode [] ''1'' ''2'' ''other'' example_tree = Some t'
          \<and> payload t' ''2'' = Some ''left''"
    by blast
  from example_ok a b c 1 2 show ?thesis by (intro conjI)
qed

text \<open>
  C2 as it is stated fails when the child is its own parent: \<open>a\<close> is not registered
  before \<^verbatim>\<open>addNode("a", "a", "hello")\<close>, and afterwards its payload is the default
  (empty) string, not \<open>hello\<close>.
\<close>

theorem addNode_payload_counterexample:
  "map_of (nodesMap (Tree_init :: string Tree)) ''a'' = None
   \<and> addNode [] ''a'' ''a'' ''hello'' (Tree_init :: string Tree)
        = Some \<lparr>root = None, nodesMap = [(''a'', Some 0)],
                store = [Some \<lparr>id_node = ''a'', data = [], children = [Some 0]\<rparr>]\<rparr>
   \<and> payload \<lparr>root = None, nodesMap = [(''a'', Some 0)],
               store = [Some \<lparr>id_node = ''a'', data = [], children = [Some 0]\<rparr>]\<rparr> ''a''
        = Some (data \<lparr>id_node = ''a'', data = ([] :: string), children = [Some 0]\<rparr>)
   \<and> payload \<lparr>root = None, nodesMap = [(''a'', Some 0)],
               store = [Some \<lparr>id_node = ''a'', data = [], children = [Some 0]\<rparr>]\<rparr> ''a''
        \<noteq> Some ''hello''"
  by code_simp

subsection \<open>createRoot\<close>

text \<open>
  C6. In a well-formed tree \<^verbatim>\<open>createRoot(id, value)\<close> succeeds and leaves a
  well-formed tree whose root is the node registered under \<open>id\<close>, holding \<open>value\<close>.
  If \<open>id\<close> was registered, it is the same node and neither the map nor the number of
  nodes changes; otherwise it is a new node, added to the store and to the map. Every
  entry of the map before the call, the previous root's among them, is still there.
\<close>

theorem createRoot_spec:
  assumes "tree_ok t"
  shows "\<exists>t'. createRoot ident v t = Some t' \<and> tree_ok t'
           \<and> map_of (nodesMap t') ident = Some (root t')
           \<and> payload t' ident = Some v
           \<and> (\<forall>q. map_of (nodesMap t) ident = Some q \<longrightarrow>
                root t' = q \<and> nodesMap t' = nodesMap t
                \<and> length (store t') = length (store t))
           \<and> (map_of (nodesMap t) ident = None \<longrightarrow>
                root t' = Some (length (store t))
                \<and> store t' = store t @ [Some \<lparr>id_node = ident, data = v, children = []\<rparr>]
                \<and> set (nodesMap t') = insert (ident, root t') (set (nodesMap t)))
           \<and> (\<forall>k q. map_of (nodesMap t) k = Some q \<longrightarrow> map_of (nodesMap t') k = Some q)
           \<and> (root t \<noteq> None \<longrightarrow> root t \<in> registered t')"
proof -
  from createRoot_ok [OF assms, of ident v]
  obtain t' where t': "createRoot ident v t = Some t'" "tree_ok t'" by blast
  have oldroot: "registered t \<subseteq> registered t' \<Longrightarrow> root t \<noteq> None \<longrightarrow> root t \<in> registered t'"
    using assms by (auto simp: tree_ok_iff)
  have "map_of (nodesMap t') ident = Some (root t')
           \<and> payload t' ident = Some v
           \<and> (\<forall>q. map_of (nodesMap t) ident = Some q \<longrightarrow>
                root t' = q \<and> nodesMap t' = nodesMap t
                \<and> length (store t') = length (store t))
           \<and> (map_of (nodesMap t) ident = None \<longrightarrow>
                root t' = Some (length (store t))
                \<and> store t' = store t @ [Some \<lparr>id_node = ident, data = v, children = []\<rparr>]
                \<and> set (nodesMap t') = insert (ident, root t') (set (nodesMap t)))
           \<and> (\<forall>k q. map_of (nodesMap t) k = Some q \<longrightarrow> map_of (nodesMap t') k = Some q)
           \<and> registered t \<subseteq> registered t'"
  proof (cases "map_of (nodesMap t) ident")
    case None
    with t'(1) have eq: "t' = t\<lparr>store := store t @ [Some \<lparr>id_node = ident, data = v, children = []\<rparr>],
                     nodesMap := nodesMap t @ [(ident, Some (length (store t)))],
                     root := Some (length (store t))\<rparr>"
      by (simp add: createRoot_def new_Node_def map_assign_absent)
    have 1: "map_of (nodesMap t') ident = Some (root t')"
      using None by (simp add: eq map_add_def)
    have 2: "payload t' ident = Some v"
      using None by (simp add: eq payload_def deref_def map_add_def)
    have 3: "\<forall>q. map_of (nodesMap t) ident = Some q \<longrightarrow>
                root t' = q \<and> nodesMap t' = nodesMap t
                \<and> length (store t') = length (store t)"
      using None by simp
    have 4: "map_of (nodesMap t) ident = None \<longrightarrow>
                root t' = Some (length (store t))
                \<and> store t' = store t @ [Some \<lparr>id_node = ident, data = v, children = []\<rparr>]
                \<and> set (nodesMap t') = insert (ident, root t') (set (nodesMap t))"
      by (simp add: eq)
    have 5: "\<forall>k q. map_of (nodesMap t) k = Some q \<longrightarrow> map_of (nodesMap t') k = Some q"
      by (simp add: eq map_add_def)
    have 6: "registered t \<subseteq> registered t'"
      by (auto simp: eq registered_def)
    from 1 2 3 4 5 6 show ?thesis by (intro conjI)
  next
    case (Some node)
    from registered_deref [OF assms map_of_registered [OF Some]]
    obtain n where n: "deref t node = Some n" by blast
    then obtain a where a: "node = Some a" "a < length (store t)" "store t ! a = Some n"
      by (auto simp: deref_def split: option.splits if_splits)
    with Some t'(1) have eq: "t' = t\<lparr>store := (store t)[a := Some (n\<lparr>data := v\<rparr>)], root := node\<rparr>"
      by (simp add: createRoot_def modify_def)
    have 1: "map_of (nodesMap t') ident = Some (root t')"
      using Some by (simp add: eq)
    have 2: "payload t' ident = Some v"
      using Some a by (simp add: eq payload_def deref_def)
    have 3: "\<forall>q. map_of (nodesMap t) ident = Some q \<longrightarrow>
                root t' = q \<and> nodesMap t' = nodesMap t
                \<and> length (store t') = length (store t)"
      using Some by (simp add: eq)
    have 4: "map_of (nodesMap t) ident = None \<longrightarrow>
                root t' = Some (length (store t))
                \<and> store t' = store t @ [Some \<lparr>id_node = ident, data = v, children = []\<rparr>]
                \<and> set (nodesMap t') = insert (ident, root t') (set (nodesMap t))"
      using Some by simp
    have 5: "\<forall>k q. map_of (nodesMap t) k = Some q \<longrightarrow> map_of (nodesMap t') k = Some q"
      by (simp add: eq)
    have 6: "registered t \<subseteq> registered t'"
      by (simp add: eq registered_def)
    from 1 2 3 4 5 6 show ?thesis by (intro conjI)
  qed
  then have "createRoot ident v t = Some t' \<and> tree_ok t'
           \<and> map_of (nodesMap t') ident = Some (root t')
           \<and> payload t' ident = Some v
           \<and> (\<forall>q. map_of (nodesMap t) ident = Some q \<longrightarrow>
                root t' = q \<and> nodesMap t' = nodesMap t
                \<and> length (store t') = length (store t))
           \<and> (map_of (nodesMap t) ident = None \<longrightarrow>
                root t' = Some (length (store t))
                \<and> store t' = store t @ [Some \<lparr>id_node = ident, data = v, children = []\<rparr>]
                \<and> set (nodesMap t') = insert (ident, root t') (set (nodesMap t)))
           \<and> (\<forall>k q. map_of (nodesMap t) k = Some q \<longrightarrow> map_of (nodesMap t') k = Some q)
           \<and> (root t \<noteq> None \<longrightarrow> root t \<in> registered t')"
    using t' oldroot by (elim conjE) (intro conjI; assumption?)
  then show ?thesis by (rule exI)
qed


theorem createRoot_spec_witness:
  "tree_ok example_tree
   \<and> map_of (nodesMap example_tree) ''2'' = Some (Some 1)
   \<and> map_of (nodesMap example_tree) ''9'' = None
   \<and> root example_tree = Some 0 \<and> root example_tree \<noteq> None
   \<and> (\<exists>t'. createRoot ''2'' ''again'' example_tree = Some t'
          \<and> root t' = Some 1 \<and> payload t' ''2'' = Some ''again''
          \<and> nodesMap t' = nodesMap example_tree
          \<and> Some 0 \<in> registered t')
   \<and> (\<exists>t'. createRoot ''9'' ''fresh'' example_tree = Some t'
          \<and> root t' = Some 3 \<and> payload t' ''9'' = Some ''fresh''
          \<and> map_of (nodesMap t') ''9'' = Some (Some 3)
          \<and> Some 0 \<in> registered t')"
proof -
  have a: "map_of (nodesMap example_tree) ''2'' = Some (Some 1)" by code_simp
  have b: "map_of (nodesMap example_tree) ''9'' = None" by code_simp
  have c: "root example_tree = Some 0" by code_simp
  have d: "root example_tree \<noteq> None" by code_simp
  have l: "length (store example_tree) = 3" by code_simp
  from createRoot_spec [OF example_ok, of "''2''" "''again''"]
  obtain t1 where t1: "createRoot ''2'' ''again'' example_tree = Some t1 \<and> tree_ok t1
           \<and> map_of (nodesMap t1) ''2'' = Some (root t1)
           \<and> payload t1 ''2'' = Some ''again''
           \<and> (\<forall>q. map_of (nodesMap example_tree) ''2'' = Some q \<longrightarrow>
                root t1 = q \<and> nodesMap t1 = nodesMap example_tree
                \<and> length (store t1) = length (store example_tree))
           \<and> (map_of (nodesMap example_tree) ''2'' = None \<longrightarrow>
                root t1 = Some (length (store example_tree))
                \<and> store t1 = store example_tree @ [Some \<lparr>id_node = ''2'', data = ''again'', children = []\<rparr>]
                \<and> set (nodesMap t1) = insert (''2'', root t1) (set (nodesMap example_tree)))
           \<and> (\<forall>k q. map_of (nodesMap example_tree) k = Some q \<longrightarrow> map_of (nodesMap t1) k = Some q)
           \<and> (root example_tree \<noteq> None \<longrightarrow> root example_tree \<in> registered t1)" ..
  from t1 a c d
  have 1: "\<exists>t'. createRoot ''2'' ''again'' example_tree = Some t'
          \<and> root t' = Some 1 \<and> payload t' ''2'' = Some ''again''
          \<and> nodesMap t' = nodesMap example_tree
          \<and> Some 0 \<in> registered t'"
    by (intro exI [of _ t1]) simp
  from createRoot_spec [OF example_ok, of "''9''" "''fresh''"]
  obtain t2 where t2: "createRoot ''9'' ''fresh'' example_tree = Some t2 \<and> tree_ok t2
           \<and> map_of (nodesMap t2) ''9'' = Some (root t2)
           \<and> payload t2 ''9'' = Some ''fresh''
           \<and> (\<forall>q. map_of (nodesMap example_tree) ''9'' = Some q \<longrightarrow>
                root t2 = q \<and> nodesMap t2 = nodesMap example_tree
                \<and> length (store t2) = length (store example_tree))
           \<and> (map_of (nodesMap example_tree) ''9'' = None \<longrightarrow>
                root t2 = Some (length (store example_tree))
                \<and> store t2 = store example_tree @ [Some \<lparr>id_node = ''9'', data = ''fresh'', children = []\<rparr>]
                \<and> set (nodesMap t2) = insert (''9'', root t2) (set (nodesMap example_tree)))
           \<and> (\<forall>k q. map_of (nodesMap example_tree) k = Some q \<longrightarrow> map_of (nodesMap t2) k = Some q)
           \<and> (root example_tree \<noteq> None \<longrightarrow> root example_tree \<in> registered t2)" ..
  from t2 b c d l
  have 2: "\<exists>t'. createRoot ''9'' ''fresh'' example_tree = Some t'
          \<and> root t' = Some 3 \<and> payload t' ''9'' = Some ''fresh''
          \<and> map_of (nodesMap t') ''9'' = Some (Some 3)
          \<and> Some 0 \<in> registered t'"
    by (intro exI [of _ t2]) simp
  from example_ok a b c d 1 2 show ?thesis by (intro conjI)
qed

subsection \<open>Children lists\<close>

lemma addNode_edge:
  assumes ok: "tree_ok t" and r: "addNode dflt parentID childID v t = Some t'"
  shows "\<exists>pp cp pn. map_of (nodesMap t') parentID = Some pp
           \<and> map_of (nodesMap t') childID = Some cp
           \<and> deref t' pp = Some pn \<and> cp \<in> set (children pn)"
proof -
  from addNode_result [OF ok, of parentID dflt childID v]
  obtain parent child t1 t2 pn a where
    e1: "ensure parentID dflt t = (parent, t1)" and e2: "ensure childID v t1 = (child, t2)"
    and ok1: "tree_ok t1" and ok2: "tree_ok t2"
    and pn: "deref t2 parent = Some pn" and a: "parent = Some a" "a < length (store t2)"
    and res: "addNode dflt parentID childID v t =
           Some (if child \<in> set (children pn) then t2
                 else t2\<lparr>store := (store t2)[a := Some (pn\<lparr>children := children pn @ [child]\<rparr>)]\<rparr>)"
    by metis
  note p1 = ensure_props [OF ok e1]
  note p2 = ensure_props [OF ok1 e2]
  from r res have t': "t' = (if child \<in> set (children pn) then t2
                 else t2\<lparr>store := (store t2)[a := Some (pn\<lparr>children := children pn @ [child]\<rparr>)]\<rparr>)"
    by simp
  have mp: "map_of (nodesMap t') parentID = Some parent" using p2(3) [OF p1(2)] t' by simp
  have mc: "map_of (nodesMap t') childID = Some child" using p2(2) t' by simp
  have "\<exists>pn'. deref t' parent = Some pn' \<and> child \<in> set (children pn')"
    using pn a t' by (auto simp: deref_def)
  with mp mc show ?thesis by blast
qed

lemma distinct_count_list: "distinct xs \<Longrightarrow> x \<in> set xs \<Longrightarrow> count_list xs x = 1"
  by (induction xs) auto

text \<open>
  C5. After any sequence of \<^verbatim>\<open>createRoot\<close> and \<^verbatim>\<open>addNode\<close> calls on a new tree,
  no node's children list holds the same pointer twice; and when the sequence goes on
  with \<^verbatim>\<open>addNode(parentID, childID, _)\<close> twice in a row, the parent's children list
  holds the pointer of the child exactly once.
\<close>

theorem children_no_duplicates:
  "\<exists>t. build dflt calls Tree_init = Some t
      \<and> (\<forall>p n. deref t p = Some n \<longrightarrow> distinct (children n))
      \<and> (\<forall>parentID childID v v2. \<exists>t2 pp cp pn.
            build dflt (calls @ [AddNode parentID childID v, AddNode parentID childID v2])
              Tree_init = Some t2
            \<and> map_of (nodesMap t2) parentID = Some pp
            \<and> map_of (nodesMap t2) childID = Some cp
            \<and> deref t2 pp = Some pn
            \<and> count_list (children pn) cp = 1)"
proof -
  from build_ok [OF Tree_init_ok, of dflt calls]
  obtain t where t: "build dflt calls Tree_init = Some t" "tree_ok t" by blast
  have d: "\<forall>p n. deref t p = Some n \<longrightarrow> distinct (children n)"
    using deref_children(2) [OF t(2)] by blast
  have twice: "\<exists>t2 pp cp pn.
            build dflt (calls @ [AddNode parentID childID v, AddNode parentID childID v2])
              Tree_init = Some t2
            \<and> map_of (nodesMap t2) parentID = Some pp
            \<and> map_of (nodesMap t2) childID = Some cp
            \<and> deref t2 pp = Some pn
            \<and> count_list (children pn) cp = 1" for parentID childID v v2
  proof -
    from addNode_ok [OF t(2), of dflt parentID childID v]
    obtain t1 where t1: "addNode dflt parentID childID v t = Some t1" "tree_ok t1" by blast
    from addNode_ok [OF t1(2), of dflt parentID childID v2]
    obtain t2 where t2: "addNode dflt parentID childID v2 t1 = Some t2" "tree_ok t2" by blast
    from addNode_edge [OF t1(2) t2(1)]
    obtain pp cp pn where e: "map_of (nodesMap t2) parentID = Some pp"
        "map_of (nodesMap t2) childID = Some cp" "deref t2 pp = Some pn"
        "cp \<in> set (children pn)"
      by blast
    from distinct_count_list [OF deref_children(2) [OF t2(2) e(3)] e(4)]
    have c: "count_list (children pn) cp = 1" .
    have b: "build dflt (calls @ [AddNode parentID childID v, AddNode parentID childID v2])
              Tree_init = Some t2"
      using t(1) t1(1) t2(1) by (simp add: build_append)
    from b e(1,2,3) c show ?thesis by blast
  qed
  from t(1) d twice show ?thesis by blast
qed

theorem children_no_duplicates_witness:
  "build [] example_calls Tree_init = Some example_tree
   \<and> deref example_tree (Some 0) = Some example_root
   \<and> distinct (children example_root)
   \<and> (\<exists>t2 pp cp pn.
         build [] (example_calls @ [AddNode ''1'' ''3'' ''x'', AddNode ''1'' ''3'' ''y''])
           Tree_init = Some t2
         \<and> map_of (nodesMap t2) ''1'' = Some pp
         \<and> map_of (nodesMap t2) ''3'' = Some cp
         \<and> deref t2 pp = Some pn
         \<and> count_list (children pn) cp = 1)"
proof -
  from children_no_duplicates [of "[]" example_calls]
  obtain t where t: "build [] example_calls Tree_init = Some t
      \<and> (\<forall>p n. deref t p = Some n \<longrightarrow> distinct (children n))
      \<and> (\<forall>parentID childID v v2. \<exists>t2 pp cp pn.
            build [] (example_calls @ [AddNode parentID childID v, AddNode parentID childID v2])
              Tree_init = Some t2
            \<and> map_of (nodesMap t2) parentID = Some pp
            \<and> map_of (nodesMap t2) childID = Some cp
            \<and> deref t2 pp = Some pn
            \<and> count_list (children pn) cp = 1)" ..
  with example_build have eq: "t = example_tree" by simp
  from t eq example_deref have 1: "distinct (children example_root)" by blast
  from t have 2: "\<exists>t2 pp cp pn.
         build [] (example_calls @ [AddNode ''1'' ''3'' ''x'', AddNode ''1'' ''3'' ''y''])
           Tree_init = Some t2
         \<and> map_of (nodesMap t2) ''1'' = Some pp
         \<and> map_of (nodesMap t2) ''3'' = Some cp
         \<and> deref t2 pp = Some pn
         \<and> count_list (children pn) cp = 1"
    by (elim conjE allE)
  from example_build example_deref 1 2 show ?thesis by (intro conjI)
qed

subsection \<open>One node per id\<close>

lemma findNode_frame: "snd (findNode ident t) = t"
  by (simp add: findNode_def split: option.splits)

lemma findNode_fst: "fst (findNode ident t) = (case map_of (nodesMap t) ident of None \<Rightarrow> None | Some p \<Rightarrow> p)"
  by (simp add: findNode_def split: option.splits)

text \<open>
  C7. After any sequence of construction calls on a new tree: the map has one entry
  per id; every node in the store is the node \<^verbatim>\<open>findNode\<close> returns for its id, so
  two nodes with the same id are the same node; what \<^verbatim>\<open>findNode\<close> returns, when not
  \<^verbatim>\<open>nullptr\<close>, is a live node with the id asked for; \<^verbatim>\<open>findNode\<close> leaves the tree
  as it was, and a second call returns the same pointer.
\<close>

theorem one_node_per_id:
  "\<exists>t. build dflt calls Tree_init = Some t
      \<and> distinct (map fst (nodesMap t))
      \<and> (\<forall>a n. a < length (store t) \<and> store t ! a = Some n \<longrightarrow>
            fst (findNode (id_node n) t) = Some a)
      \<and> (\<forall>a b n m. a < length (store t) \<and> b < length (store t)
            \<and> store t ! a = Some n \<and> store t ! b = Some m \<and> id_node n = id_node m \<longrightarrow> a = b)
      \<and> (\<forall>ident. fst (findNode ident t) \<noteq> None \<longrightarrow>
            (\<exists>n. deref t (fst (findNode ident t)) = Some n \<and> id_node n = ident))
      \<and> (\<forall>ident. snd (findNode ident t) = t
            \<and> fst (findNode ident (snd (findNode ident t))) = fst (findNode ident t))"
proof -
  from build_ok [OF Tree_init_ok, of dflt calls]
  obtain t where t: "build dflt calls Tree_init = Some t" "tree_ok t" by blast
  have 1: "distinct (map fst (nodesMap t))" using t(2) by (simp add: tree_ok_iff)
  have 2: "\<forall>a n. a < length (store t) \<and> store t ! a = Some n \<longrightarrow>
            fst (findNode (id_node n) t) = Some a"
  proof (intro allI impI)
    fix a n assume "a < length (store t) \<and> store t ! a = Some n"
    with t(2) have "map_of (nodesMap t) (id_node n) = Some (Some a)"
      unfolding tree_ok_iff by fastforce
    then show "fst (findNode (id_node n) t) = Some a" by (simp add: findNode_fst)
  qed
  have 3: "\<forall>a b n m. a < length (store t) \<and> b < length (store t)
            \<and> store t ! a = Some n \<and> store t ! b = Some m \<and> id_node n = id_node m \<longrightarrow> a = b"
  proof (intro allI impI)
    fix a b n m
    assume h: "a < length (store t) \<and> b < length (store t)
            \<and> store t ! a = Some n \<and> store t ! b = Some m \<and> id_node n = id_node m"
    with 2 have "fst (findNode (id_node n) t) = Some a" "fst (findNode (id_node m) t) = Some b"
      by blast+
    with h show "a = b" by simp
  qed
  have 4: "\<forall>ident. fst (findNode ident t) \<noteq> None \<longrightarrow>
            (\<exists>n. deref t (fst (findNode ident t)) = Some n \<and> id_node n = ident)"
  proof (intro allI impI)
    fix ident assume nn: "fst (findNode ident t) \<noteq> None"
    then obtain p where p: "map_of (nodesMap t) ident = Some p"
      by (auto simp: findNode_fst split: option.splits)
    then have "(ident, p) \<in> set (nodesMap t)" by (rule map_of_SomeD)
    with t(2) have "entry_ok t (ident, p)" by (auto simp: tree_ok_def list_all_iff)
    with p show "\<exists>n. deref t (fst (findNode ident t)) = Some n \<and> id_node n = ident"
      by (auto simp: findNode_fst entry_ok_def split: option.splits)
  qed
  have 5: "\<forall>ident. snd (findNode ident t) = t
            \<and> fst (findNode ident (snd (findNode ident t))) = fst (findNode ident t)"
    by (simp add: findNode_frame)
  from t(1) 1 2 3 4 5 show ?thesis by blast
qed

theorem one_node_per_id_witness:
  "build [] example_calls Tree_init = Some example_tree
   \<and> (0::nat) < length (store example_tree) \<and> store example_tree ! 0 = Some example_root
   \<and> id_node example_root = ''1''
   \<and> fst (findNode ''1'' example_tree) = Some 0
   \<and> fst (findNode ''1'' example_tree) \<noteq> None
   \<and> deref example_tree (fst (findNode ''1'' example_tree)) = Some example_root
   \<and> snd (findNode ''1'' example_tree) = example_tree
   \<and> fst (findNode ''zzz'' example_tree) = None"
proof -
  from one_node_per_id [of "[]" example_calls]
  obtain t where t: "build [] example_calls Tree_init = Some t
      \<and> distinct (map fst (nodesMap t))
      \<and> (\<forall>a n. a < length (store t) \<and> store t ! a = Some n \<longrightarrow>
            fst (findNode (id_node n) t) = Some a)
      \<and> (\<forall>a b n m. a < length (store t) \<and> b < length (store t)
            \<and> store t ! a = Some n \<and> store t ! b = Some m \<and> id_node n = id_node m \<longrightarrow> a = b)
      \<and> (\<forall>ident. fst (findNode ident t) \<noteq> None \<longrightarrow>
            (\<exists>n. deref t (fst (findNode ident t)) = Some n \<and> id_node n = ident))
      \<and> (\<forall>ident. snd (findNode ident t) = t
            \<and> fst (findNode ident (snd (findNode ident t))) = fst (findNode ident t))" ..
  with example_build have eq: "t = example_tree" by simp
  have a: "(0::nat) < length (store example_tree)" by code_simp
  have b: "store example_tree ! 0 = Some example_root" by code_simp
  have c: "id_node example_root = ''1''" by code_simp
  from t eq a b have "fst (findNode (id_node example_root) example_tree) = Some 0" by blast
  with c have d: "fst (findNode ''1'' example_tree) = Some 0" by simp
  then have e: "fst (findNode ''1'' example_tree) \<noteq> None" by simp
  from d example_deref have f: "deref example_tree (fst (findNode ''1'' example_tree)) = Some example_root"
    by simp
  from t eq have g: "snd (findNode ''1'' example_tree) = example_tree" by blast
  have h: "fst (findNode ''zzz'' example_tree) = None" by code_simp
  from example_build a b c d e f g h show ?thesis by (intro conjI)
qed

subsection \<open>The traversal ends\<close>

lemma selection_next:
  "snd (selection current kids l) = current \<or> snd (selection current kids l) \<in> set kids"
proof -
  have "kids ! (nat choice - 1) \<in> set kids"
    if "\<not> (choice < 1 \<or> nat choice > length kids)" for choice :: int
  proof -
    from that have "nat choice - 1 < length kids" by auto
    then show ?thesis by simp
  qed
  then show ?thesis
    by (auto simp: selection_def Let_def split: option.splits)
qed

lemma playLoop_total:
  assumes ok: "tree_ok t"
  shows "p \<in> registered t \<Longrightarrow> \<exists>out. playLoop toText t p inp = Some out"
proof (induction inp arbitrary: p)
  case Nil
  from registered_deref [OF ok Nil] obtain n where n: "deref t p = Some n" by blast
  from enterNode_total [OF ok n, of toText] show ?case by auto
next
  case (Cons l rest)
  from registered_deref [OF ok Cons.prems] obtain n where n: "deref t p = Some n" by blast
  from enterNode_total [OF ok n, of toText]
  obtain out where out: "enterNode toText t p = Some (out, children n)" by blast
  show ?case
  proof (cases "children n = []")
    case True
    with out show ?thesis by simp
  next
    case False
    obtain notice nxt where s: "selection p (children n) l = (notice, nxt)"
      by (cases "selection p (children n) l")
    from selection_next [of p "children n" l] s deref_children(1) [OF ok n] Cons.prems
    have "nxt \<in> registered t" by auto
    from Cons.IH [OF this] obtain out' where "playLoop toText t nxt rest = Some out'" by blast
    with out False s show ?thesis by simp
  qed
qed

text \<open>
  C4, as amended. In a well-formed tree and for every input: a session started with no
  root writes the "no root" notice and nothing else; a session started with a root
  returns, and what it wrote begins with the opening banner and ends with "Adventure
  Complete".
\<close>

theorem playGame_completion:
  assumes "tree_ok t"
  shows "(root t = None \<longrightarrow>
            playGame toText t inp = Some ([line ''No root node. Cannot play game.''], t))
         \<and> (root t \<noteq> None \<longrightarrow>
              (\<exists>out. playGame toText t inp =
                 Some ([line ''===== Begin Adventure ====='', endl] @ out
                       @ [line ''===== Adventure Complete =====''], t)))"
proof (cases "root t = None")
  case True
  then show ?thesis by (simp add: playGame_def)
next
  case False
  with assms have "root t \<in> registered t" by (simp add: tree_ok_def)
  from playLoop_total [OF assms this, of toText inp]
  obtain out where "playLoop toText t (root t) inp = Some out" by blast
  with False show ?thesis by (simp add: playGame_def)
qed

theorem playGame_completion_witness:
  "tree_ok (Tree_init :: string Tree) \<and> root (Tree_init :: string Tree) = None
   \<and> playGame id (Tree_init :: string Tree) [''1'']
        = Some ([line ''No root node. Cannot play game.''], Tree_init)
   \<and> tree_ok example_tree \<and> root example_tree \<noteq> None
   \<and> (\<exists>out. playGame id example_tree [''1''] =
          Some ([line ''===== Begin Adventure ====='', endl] @ out
                @ [line ''===== Adventure Complete =====''], example_tree))"
proof -
  have a: "root (Tree_init :: string Tree) = None" by code_simp
  have b: "root example_tree \<noteq> None" by code_simp
  from playGame_completion [OF Tree_init_ok, of id "[''1'']"] a
  have 1: "playGame id (Tree_init :: string Tree) [''1'']
        = Some ([line ''No root node. Cannot play game.''], Tree_init)" by blast
  from playGame_completion [OF example_ok, of id "[''1'']"] b
  have 2: "\<exists>out. playGame id example_tree [''1''] =
          Some ([line ''===== Begin Adventure ====='', endl] @ out
                @ [line ''===== Adventure Complete =====''], example_tree)" by blast
  from Tree_init_ok a 1 example_ok b 2 show ?thesis by (intro conjI)
qed

text \<open>
  C4 as it is stated fails for a tree with no root: the session writes the "no root"
  notice and returns, and "Adventure Complete" is not written.
\<close>

theorem playGame_completion_counterexample:
  "root (Tree_init :: string Tree) = None
   \<and> playGame id (Tree_init :: string Tree) []
        = Some ([line ''No root node. Cannot play game.''], Tree_init)
   \<and> line ''===== Adventure Complete =====''
        \<notin> set [line ''No root node. Cannot play game.'']"
  by code_simp

subsection \<open>The sort\<close>

lemma keyLess_asym: "keyLess a b \<Longrightarrow> \<not> keyLess b a"
  by (auto simp: keyLess_def split: if_splits)

lemma keyLess_trans: "keyLess a b \<Longrightarrow> keyLess b c \<Longrightarrow> keyLess a c"
  by (auto simp: keyLess_def split: if_splits)

lemma keyLess_total: "a \<noteq> b \<Longrightarrow> keyLess a b \<or> keyLess b a"
  by (cases a; cases b) (auto simp: keyLess_def)

lemma not_keyLess_trans: "\<not> keyLess b a \<Longrightarrow> \<not> keyLess c b \<Longrightarrow> \<not> keyLess c a"
  by (cases a; cases b; cases c) (auto simp: keyLess_def split: if_splits)

lemma set_insert_by: "set (insert_by lt x ys) = insert x (set ys)"
  by (induction ys) auto

lemma set_sort_by: "set (sort_by lt xs) = set xs"
  by (induction xs) (simp_all add: set_insert_by)

lemma length_insert_by: "length (insert_by lt x ys) = Suc (length ys)"
  by (induction ys) auto

lemma length_sort_by: "length (sort_by lt xs) = length xs"
  by (induction xs) (simp_all add: length_insert_by)

lemma distinct_insert_by: "distinct (insert_by lt x ys) \<longleftrightarrow> x \<notin> set ys \<and> distinct ys"
  by (induction ys) (auto simp: set_insert_by)

lemma distinct_sort_by: "distinct (sort_by lt xs) \<longleftrightarrow> distinct xs"
  by (induction xs) (simp_all add: distinct_insert_by set_sort_by)

lemma sorted_insert_by:
  "sorted_wrt (\<lambda>a b. \<not> keyLess b a) ys \<Longrightarrow>
   sorted_wrt (\<lambda>a b. \<not> keyLess b a) (insert_by keyLess x ys)"
proof (induction ys)
  case Nil
  then show ?case by simp
next
  case (Cons y ys)
  show ?case
  proof (cases "keyLess x y")
    case True
    have "\<not> keyLess z x" if "z \<in> set ys" for z
    proof -
      from Cons.prems that have "\<not> keyLess z y" by simp
      with keyLess_asym [OF True] show ?thesis by (rule not_keyLess_trans)
    qed
    with True Cons.prems keyLess_asym [OF True] show ?thesis by auto
  next
    case False
    with Cons show ?thesis by (auto simp: set_insert_by)
  qed
qed

lemma sorted_sort_by: "sorted_wrt (\<lambda>a b. \<not> keyLess b a) (sort_by keyLess xs)"
  by (induction xs) (simp_all add: sorted_insert_by)

text \<open>
  Any sorting algorithm gives the list \<open>sort_by\<close> gives: two lists without repetitions,
  with the same elements, each ascending for the comparator, are equal.
\<close>

lemma sorted_unique:
  "sorted_wrt (\<lambda>a b. \<not> keyLess b a) xs \<Longrightarrow> sorted_wrt (\<lambda>a b. \<not> keyLess b a) ys \<Longrightarrow>
   distinct xs \<Longrightarrow> distinct ys \<Longrightarrow> set xs = set ys \<Longrightarrow> xs = ys"
proof (induction xs arbitrary: ys)
  case Nil
  then show ?case by simp
next
  case (Cons x xs)
  from Cons.prems(5) obtain y ys' where ys: "ys = y # ys'" by (cases ys) auto
  have xy: "x = y"
  proof (rule ccontr)
    assume ne: "x \<noteq> y"
    with Cons.prems(5) ys have "x \<in> set ys'" "y \<in> set xs" by auto
    with Cons.prems(1,2) ys have "\<not> keyLess x y" "\<not> keyLess y x" by auto
    with keyLess_total [OF ne] show False by simp
  qed
  with Cons.prems ys have "set xs = set ys'" by auto
  with Cons.IH [of ys'] Cons.prems ys xy show ?case by simp
qed

lemma sort_by_unique:
  assumes "distinct xs" "distinct ys" "set ys = set xs"
    and "sorted_wrt (\<lambda>a b. \<not> keyLess b a) ys"
  shows "ys = sort_by keyLess xs"
  using sorted_unique [OF assms(4) sorted_sort_by [of xs] assms(2)] assms(1,3)
  by (simp add: distinct_sort_by set_sort_by)

lemma sortKey_cases:
  "sortKey s = (if s \<noteq> [] \<and> list_all isdigit s \<and> decimal s < LLONG_MAX
                then decimal s else LLONG_MAX)"
  by (auto simp: sortKey_def stoll_def Let_def)

lemma printAll_ids_sorted:
  "sorted_wrt (\<lambda>a b. sortKey a < sortKey b \<or> (sortKey a = sortKey b \<and> a \<le> b))
     (printAll_ids t)"
proof -
  let ?ks = "sortedKeys t"
  have s: "sorted_wrt (\<lambda>a b. \<not> keyLess b a) ?ks"
    by (simp add: sortedKeys_def sorted_sort_by)
  have k: "\<forall>p \<in> set ?ks. snd p = sortKey (fst p)"
    by (auto simp: sortedKeys_def set_sort_by numericKeys_def)
  have "sorted_wrt (\<lambda>p q. sortKey (fst p) < sortKey (fst q)
            \<or> (sortKey (fst p) = sortKey (fst q) \<and> fst p \<le> fst q)) ?ks"
  proof (rule sorted_wrt_mono_rel [OF _ s])
    fix p q assume "p \<in> set ?ks" "q \<in> set ?ks" "\<not> keyLess q p"
    with k show "sortKey (fst p) < sortKey (fst q)
            \<or> (sortKey (fst p) = sortKey (fst q) \<and> fst p \<le> fst q)"
      by (auto simp: keyLess_def split: if_splits)
  qed
  then show ?thesis by (simp add: printAll_ids_def sorted_wrt_map)
qed

lemma printAll_ids_set: "set (printAll_ids t) = fst ` set (nodesMap t)"
  by (auto simp: printAll_ids_def sortedKeys_def set_sort_by numericKeys_def intro: rev_image_eqI)

lemma printAll_ids_length: "length (printAll_ids t) = length (nodesMap t)"
  by (simp add: printAll_ids_def sortedKeys_def length_sort_by numericKeys_def)

subsection \<open>printAll\<close>

lemma childLines_total:
  "\<forall>c \<in> set cs. \<exists>n. deref t c = Some n \<Longrightarrow> \<exists>ls. childLines t cs = Some ls"
proof (induction cs)
  case Nil
  then show ?case by simp
next
  case (Cons c cs)
  from Cons.prems obtain n where n: "deref t c = Some n" by auto
  from Cons.prems have "\<forall>c \<in> set cs. \<exists>n. deref t c = Some n" by simp
  from Cons.IH [OF this] obtain ls where "childLines t cs = Some ls" by blast
  with n show ?case by simp
qed

lemma printEntry_registered:
  assumes ok: "tree_ok t" and k: "ident \<in> fst ` set (nodesMap t)"
  shows "\<exists>n rest. printEntry toText ident t
           = Some (line (''Node '' @ ident @ '': '' @ dataText toText n) # rest, t)
         \<and> payload t ident = Some (data n)"
proof -
  from k obtain p where p: "map_of (nodesMap t) ident = Some p"
    by (cases "map_of (nodesMap t) ident") (auto simp: map_of_eq_None_iff)
  from registered_deref [OF ok map_of_registered [OF p]]
  obtain n where n: "deref t p = Some n" by blast
  from childLines_total [OF children_deref [OF ok n]]
  obtain ls where ls: "childLines t (children n) = Some ls" by blast
  have "printEntry toText ident t
         = Some (line (''Node '' @ ident @ '': '' @ dataText toText n)
                 # (if children n = [] then [line ''  Child -> (none)''] else ls) @ [endl], t)"
    using p n ls by (simp add: printEntry_def map_subscript_def)
  moreover have "payload t ident = Some (data n)" using p n by (simp add: payload_def)
  ultimately show ?thesis by blast
qed

lemma printEntries_registered:
  assumes ok: "tree_ok t"
  shows "fst ` set ps \<subseteq> fst ` set (nodesMap t) \<Longrightarrow>
         printEntries toText ps t = Some (concat (map (entryChunks toText t) (map fst ps)), t)"
proof (induction ps)
  case Nil
  then show ?case by simp
next
  case (Cons p ps)
  from Cons.prems have "fst p \<in> fst ` set (nodesMap t)" by simp
  from printEntry_registered [OF ok this, of toText]
  obtain out where out: "printEntry toText (fst p) t = Some (out, t)" by blast
  then have c: "entryChunks toText t (fst p) = out" by (simp add: entryChunks_def)
  from Cons.prems have "fst ` set ps \<subseteq> fst ` set (nodesMap t)" by simp
  from Cons.IH [OF this] out c show ?case by simp
qed

lemma sortedKeys_keys: "fst ` set (sortedKeys t) = fst ` set (nodesMap t)"
  using printAll_ids_set [of t] by (simp add: printAll_ids_def)

lemma printAll_registered:
  assumes ok: "tree_ok t" and ne: "nodesMap t \<noteq> []"
  shows "printAll toText t
           = Some ([line ''===== Story Tree ====='']
                   @ concat (map (entryChunks toText t) (printAll_ids t))
                   @ [line ''======================''], t)"
proof -
  have "fst ` set (sortedKeys t) \<subseteq> fst ` set (nodesMap t)" by (simp add: sortedKeys_keys)
  from printEntries_registered [OF ok this, of toText] ne show ?thesis
    by (simp add: printAll_def printAll_ids_def)
qed

lemma printAll_ids_distinct:
  assumes "distinct (map fst (nodesMap t))"
  shows "distinct (printAll_ids t)"
proof -
  let ?xs = "numericKeys (map fst (nodesMap t))"
  have m: "map fst ?xs = map fst (nodesMap t)" by (simp add: numericKeys_def comp_def)
  with assms have d: "distinct (map fst ?xs)" by simp
  then have "distinct ?xs \<and> inj_on fst (set ?xs)" by (simp add: distinct_map)
  then have "distinct (sort_by keyLess ?xs) \<and> inj_on fst (set (sort_by keyLess ?xs))"
    by (simp add: distinct_sort_by set_sort_by)
  then show ?thesis by (simp add: printAll_ids_def sortedKeys_def distinct_map)
qed

text \<open>
  C1, as amended. For a well-formed tree with at least one node, \<^verbatim>\<open>printAll\<close> writes
  the banner, then for each id of \<open>printAll_ids\<close> in turn the chunks of that entry,
  starting with its "Node id: text" line, then the closing line, and leaves the tree as
  it was. \<open>printAll_ids\<close> holds every id of the map once, ordered by the pair
  (key, id): smaller key first, equal keys in lexicographic order of the ids. The key is
  the value of an id that is all digits and below \<open>LLONG_MAX\<close>, and \<open>LLONG_MAX\<close> for
  every other id: ids that are not all digits, all-digit ids that overflow, and the
  id of value \<open>LLONG_MAX\<close> itself.
\<close>

theorem printAll_order:
  assumes "tree_ok t" and "nodesMap t \<noteq> []"
  shows "printAll toText t
           = Some ([line ''===== Story Tree ====='']
                   @ concat (map (entryChunks toText t) (printAll_ids t))
                   @ [line ''======================''], t)
         \<and> (\<forall>ident \<in> set (printAll_ids t). \<exists>n rest.
               payload t ident = Some (data n)
               \<and> entryChunks toText t ident
                   = line (''Node '' @ ident @ '': '' @ dataText toText n) # rest)
         \<and> set (printAll_ids t) = fst ` set (nodesMap t)
         \<and> distinct (printAll_ids t)
         \<and> sorted_wrt (\<lambda>a b. sortKey a < sortKey b \<or> (sortKey a = sortKey b \<and> a \<le> b))
              (printAll_ids t)
         \<and> (\<forall>s. sortKey s = (if s \<noteq> [] \<and> list_all isdigit s \<and> decimal s < LLONG_MAX
                              then decimal s else LLONG_MAX))"
proof (intro conjI)
  show "printAll toText t
           = Some ([line ''===== Story Tree ====='']
                   @ concat (map (entryChunks toText t) (printAll_ids t))
                   @ [line ''======================''], t)"
    by (rule printAll_registered [OF assms])
  show "\<forall>ident \<in> set (printAll_ids t). \<exists>n rest.
               payload t ident = Some (data n)
               \<and> entryChunks toText t ident
                   = line (''Node '' @ ident @ '': '' @ dataText toText n) # rest"
  proof
    fix ident assume "ident \<in> set (printAll_ids t)"
    then have "ident \<in> fst ` set (nodesMap t)" by (simp add: printAll_ids_set)
    from printEntry_registered [OF assms(1) this, of toText]
    obtain n rest where pe: "printEntry toText ident t
           = Some (line (''Node '' @ ident @ '': '' @ dataText toText n) # rest, t)"
        and pl: "payload t ident = Some (data n)" by blast
    from pe have "entryChunks toText t ident
                   = line (''Node '' @ ident @ '': '' @ dataText toText n) # rest"
      by (simp add: entryChunks_def)
    with pl show "\<exists>n rest. payload t ident = Some (data n)
               \<and> entryChunks toText t ident
                   = line (''Node '' @ ident @ '': '' @ dataText toText n) # rest"
      by blast
  qed
  show "set (printAll_ids t) = fst ` set (nodesMap t)" by (rule printAll_ids_set)
  show "distinct (printAll_ids t)"
    using assms(1) by (simp add: printAll_ids_distinct tree_ok_def)
  show "sorted_wrt (\<lambda>a b. sortKey a < sortKey b \<or> (sortKey a = sortKey b \<and> a \<le> b))
              (printAll_ids t)"
    by (rule printAll_ids_sorted)
  show "\<forall>s. sortKey s = (if s \<noteq> [] \<and> list_all isdigit s \<and> decimal s < LLONG_MAX
                              then decimal s else LLONG_MAX)"
    using sortKey_cases by blast
qed

theorem printAll_order_witness:
  "tree_ok order_tree \<and> nodesMap order_tree \<noteq> []
   \<and> printAll_ids order_tree = [''1'', ''2'', ''10'', ''apple'']
   \<and> printAll id order_tree
        = Some ([line ''===== Story Tree ====='']
                @ concat (map (entryChunks id order_tree) [''1'', ''2'', ''10'', ''apple''])
                @ [line ''======================''], order_tree)
   \<and> entryChunks id order_tree ''1''
        = [line ''Node 1: y'', line ''  Child -> (none)'', endl]
   \<and> entryChunks id order_tree ''apple''
        = [line ''Node apple: '', line ''  Child -> 1'', endl]"
proof -
  have a: "nodesMap order_tree \<noteq> []" by code_simp
  have b: "printAll_ids order_tree = [''1'', ''2'', ''10'', ''apple'']" by code_simp
  have c: "entryChunks id order_tree ''1''
        = [line ''Node 1: y'', line ''  Child -> (none)'', endl]" by code_simp
  have d: "entryChunks id order_tree ''apple''
        = [line ''Node apple: '', line ''  Child -> 1'', endl]" by code_simp
  from printAll_order [OF order_ok a, of id] b
  have e: "printAll id order_tree
        = Some ([line ''===== Story Tree ====='']
                @ concat (map (entryChunks id order_tree) [''1'', ''2'', ''10'', ''apple''])
                @ [line ''======================''], order_tree)"
    by simp
  from order_ok a b e c d show ?thesis by (intro conjI)
qed

text \<open>
  C1 as it is stated fails where keys meet at \<open>LLONG_MAX\<close>. The id "!" is not numeric
  and is printed before the all-digit id 99999999999999999999; and the overflowing id
  10000000000000000000 is printed before 9223372036854775807, which \<^verbatim>\<open>stoll\<close> parses.
\<close>

theorem printAll_order_counterexample:
  "build [] overflow_calls Tree_init = Some overflow_tree
   \<and> \<not> list_all isdigit ''!''
   \<and> list_all isdigit ''99999999999999999999''
   \<and> printAll_ids overflow_tree = [''!'', ''99999999999999999999'']
   \<and> printAll id overflow_tree
       = Some ([line ''===== Story Tree ====='',
                line ''Node !: '', line ''  Child -> 99999999999999999999'', endl,
                line ''Node 99999999999999999999: x'', line ''  Child -> (none)'', endl,
                line ''======================''],
               overflow_tree)
   \<and> build [] limit_calls Tree_init = Some limit_tree
   \<and> stoll ''9223372036854775807'' = Some 9223372036854775807
   \<and> stoll ''10000000000000000000'' = None
   \<and> printAll_ids limit_tree = [''10000000000000000000'', ''9223372036854775807'']"
  by code_simp

subsection \<open>Operations that only read\<close>

text \<open>
  C8. In a well-formed tree \<^verbatim>\<open>printAll\<close> returns and leaves the tree as it was,
  and so does \<^verbatim>\<open>playGame\<close> for every input, the empty input (immediate end of
  input) included: root, map and store, and with them every payload and every children
  list, are the same.
\<close>

theorem read_only_operations:
  assumes "tree_ok t"
  shows "(\<exists>out. printAll toText t = Some (out, t))
         \<and> (\<forall>inp. \<exists>out. playGame toText t inp = Some (out, t))"
proof
  show "\<exists>out. printAll toText t = Some (out, t)"
  proof (cases "nodesMap t = []")
    case True
    then show ?thesis by (simp add: printAll_def)
  next
    case False
    from printAll_registered [OF assms False, of toText] show ?thesis by blast
  qed
  show "\<forall>inp. \<exists>out. playGame toText t inp = Some (out, t)"
  proof
    fix inp
    show "\<exists>out. playGame toText t inp = Some (out, t)"
    proof (cases "root t = None")
      case True
      then show ?thesis by (simp add: playGame_def)
    next
      case False
      with assms have "root t \<in> registered t" by (simp add: tree_ok_def)
      from playLoop_total [OF assms this, of toText inp]
      obtain out where "playLoop toText t (root t) inp = Some out" by blast
      with False show ?thesis by (simp add: playGame_def)
    qed
  qed
qed

theorem read_only_operations_witness:
  "tree_ok example_tree
   \<and> (\<exists>out. printAll id example_tree = Some (out, example_tree))
   \<and> (\<exists>out. playGame id example_tree [''abc'', ''5'', ''1''] = Some (out, example_tree))
   \<and> (\<exists>out. playGame id example_tree [] = Some (out, example_tree))"
proof -
  from read_only_operations [OF example_ok, of id]
  have 1: "\<exists>out. printAll id example_tree = Some (out, example_tree)"
    and 2: "\<forall>inp. \<exists>out. playGame id example_tree inp = Some (out, example_tree)"
    by blast+
  from 2 have 3: "\<exists>out. playGame id example_tree [''abc'', ''5'', ''1''] = Some (out, example_tree)"
    and 4: "\<exists>out. playGame id example_tree [] = Some (out, example_tree)"
    by blast+
  from example_ok 1 3 4 show ?thesis by (intro conjI)
qed

subsection \<open>The destructor\<close>

lemma deleteAll_live:
  "distinct (map snd m) \<Longrightarrow>
   \<forall>e \<in> set m. \<exists>a. snd e = Some a \<and> a < length st \<and> st ! a \<noteq> None \<Longrightarrow>
   \<exists>released st'. deleteAll m st = Some (released, st')
      \<and> map Some released = map snd m
      \<and> length st' = length st
      \<and> (\<forall>a < length st. st' ! a = (if Some a \<in> snd ` set m then None else st ! a))"
proof (induction m arbitrary: st)
  case Nil
  then show ?case by simp
next
  case (Cons e m)
  obtain k p where e: "e = (k, p)" by (cases e)
  from Cons.prems(2) e obtain a where a: "p = Some a" "a < length st" "st ! a \<noteq> None"
    by auto
  from Cons.prems(1) e a have notin: "Some a \<notin> snd ` set m" by auto
  have d: "distinct (map snd m)" using Cons.prems(1) by simp
  have live: "\<forall>e \<in> set m. \<exists>b. snd e = Some b \<and> b < length (st[a := None])
                \<and> st[a := None] ! b \<noteq> None"
  proof
    fix e' assume m: "e' \<in> set m"
    with Cons.prems(2) obtain b where b: "snd e' = Some b" "b < length st" "st ! b \<noteq> None"
      by auto
    from m b(1) notin have "b \<noteq> a" by force
    with b show "\<exists>b. snd e' = Some b \<and> b < length (st[a := None]) \<and> st[a := None] ! b \<noteq> None"
      by simp
  qed
  from Cons.IH [OF d live]
  obtain released st' where r: "deleteAll m (st[a := None]) = Some (released, st')"
      "map Some released = map snd m" "length st' = length st"
      "\<forall>b < length st. st' ! b = (if Some b \<in> snd ` set m then None else st[a := None] ! b)"
    by auto
  have 1: "deleteAll (e # m) st = Some (a # released, st')" using e a r(1) by simp
  have 2: "map Some (a # released) = map snd (e # m)" using e a r(2) by simp
  have 3: "\<forall>b < length st. st' ! b = (if Some b \<in> snd ` set (e # m) then None else st ! b)"
  proof (intro allI impI)
    fix b assume "b < length st"
    with r(4) a e notin show "st' ! b = (if Some b \<in> snd ` set (e # m) then None else st ! b)"
      by (cases "b = a") auto
  qed
  from 1 2 r(3) 3 show ?case by blast
qed

lemma tree_okD:
  assumes "tree_ok t"
  shows "distinct (map fst (nodesMap t))"
    and "(k, p) \<in> set (nodesMap t) \<Longrightarrow>
           \<exists>a n. p = Some a \<and> a < length (store t) \<and> store t ! a = Some n \<and> id_node n = k"
    and "a < length (store t) \<Longrightarrow>
           \<exists>n. store t ! a = Some n \<and> map_of (nodesMap t) (id_node n) = Some (Some a)
               \<and> distinct (children n) \<and> set (children n) \<subseteq> registered t"
proof -
  note u = assms [unfolded tree_ok_iff]
  from u show "distinct (map fst (nodesMap t))" by (elim conjE)
  from u have e: "\<forall>(k, p) \<in> set (nodesMap t). \<exists>a n. p = Some a \<and> a < length (store t)
            \<and> store t ! a = Some n \<and> id_node n = k" by (elim conjE)
  show "\<exists>a n. p = Some a \<and> a < length (store t) \<and> store t ! a = Some n \<and> id_node n = k"
    if "(k, p) \<in> set (nodesMap t)"
    using bspec [OF e that] by simp
  from u have c: "\<forall>a < length (store t). \<exists>n. store t ! a = Some n
            \<and> map_of (nodesMap t) (id_node n) = Some (Some a)
            \<and> distinct (children n) \<and> set (children n) \<subseteq> registered t" by (elim conjE)
  show "\<exists>n. store t ! a = Some n \<and> map_of (nodesMap t) (id_node n) = Some (Some a)
               \<and> distinct (children n) \<and> set (children n) \<subseteq> registered t"
    if "a < length (store t)"
    using c that by (elim allE impE)
qed

lemma registry_pointers:
  assumes ok: "tree_ok t"
  shows "distinct (map snd (nodesMap t))"
    and "\<forall>e \<in> set (nodesMap t). \<exists>a. snd e = Some a \<and> a < length (store t) \<and> store t ! a \<noteq> None"
    and "\<forall>a < length (store t). Some a \<in> snd ` set (nodesMap t)"
proof -
  note d = tree_okD [OF ok]
  have "inj_on snd (set (nodesMap t))"
  proof (rule inj_onI)
    fix e1 e2 assume h: "e1 \<in> set (nodesMap t)" "e2 \<in> set (nodesMap t)" "snd e1 = snd e2"
    obtain k1 p1 where e1: "e1 = (k1, p1)" by (cases e1)
    obtain k2 p2 where e2: "e2 = (k2, p2)" by (cases e2)
    from d(2) [of k1 p1] h(1) e1 obtain a n where a: "p1 = Some a" "store t ! a = Some n" "id_node n = k1"
      by auto
    from d(2) [of k2 p2] h(2) e2 obtain b m where b: "p2 = Some b" "store t ! b = Some m" "id_node m = k2"
      by auto
    from h(3) e1 e2 a b show "e1 = e2" by auto
  qed
  moreover have "distinct (nodesMap t)" using d(1) by (simp add: distinct_map)
  ultimately show "distinct (map snd (nodesMap t))" by (simp add: distinct_map)
  show "\<forall>e \<in> set (nodesMap t). \<exists>a. snd e = Some a \<and> a < length (store t) \<and> store t ! a \<noteq> None"
  proof
    fix e assume "e \<in> set (nodesMap t)"
    with d(2) [of "fst e" "snd e"] show "\<exists>a. snd e = Some a \<and> a < length (store t) \<and> store t ! a \<noteq> None"
      by auto
  qed
  show "\<forall>a < length (store t). Some a \<in> snd ` set (nodesMap t)"
  proof (intro allI impI)
    fix a assume "a < length (store t)"
    from d(3) [OF this] obtain n where "store t ! a = Some n"
        "map_of (nodesMap t) (id_node n) = Some (Some a)"
      by blast
    from map_of_registered [OF this(2)] show "Some a \<in> snd ` set (nodesMap t)"
      by (simp add: registered_def)
  qed
qed


text \<open>
  C9. Destroying a well-formed tree succeeds: there is one \<^verbatim>\<open>delete\<close> per entry of
  the map, in iteration order; no address is released twice; the released addresses are
  all the nodes of the store; afterwards no cell is live, the map is empty and the root
  is \<^verbatim>\<open>nullptr\<close>. How many children lists hold a pointer plays no part.
\<close>

theorem destructor_releases_once:
  assumes "tree_ok t"
  shows "\<exists>released t'. Tree_destroy t = Some (released, t')
           \<and> map Some released = map snd (nodesMap t)
           \<and> distinct released
           \<and> set released = {0..<length (store t)}
           \<and> length (store t') = length (store t)
           \<and> list_all (\<lambda>c. c = None) (store t')
           \<and> nodesMap t' = [] \<and> root t' = None"
proof -
  note rp = registry_pointers [OF assms]
  from deleteAll_live [OF rp(1,2)]
  obtain released st' where r: "deleteAll (nodesMap t) (store t) = Some (released, st')"
      "map Some released = map snd (nodesMap t)" "length st' = length (store t)"
      "\<forall>a < length (store t). st' ! a
          = (if Some a \<in> snd ` set (nodesMap t) then None else store t ! a)"
    by blast
  let ?t' = "\<lparr>root = None, nodesMap = [], store = st'\<rparr> :: 'a Tree"
  have 1: "Tree_destroy t = Some (released, ?t')" using r(1) by (simp add: Tree_destroy_def)
  have "distinct (map Some released)" using r(2) rp(1) by simp
  then have 2: "distinct released" by (simp add: distinct_map)
  have "Some ` set released = snd ` set (nodesMap t)"
    using r(2) by (metis list.set_map)
  have 3: "set released = {0..<length (store t)}"
  proof (intro set_eqI iffI)
    fix a assume "a \<in> set released"
    with \<open>Some ` set released = snd ` set (nodesMap t)\<close>
    have "Some a \<in> snd ` set (nodesMap t)" by blast
    with rp(2) show "a \<in> {0..<length (store t)}" by auto
  next
    fix a assume "a \<in> {0..<length (store t)}"
    with rp(3) have "Some a \<in> snd ` set (nodesMap t)" by simp
    with \<open>Some ` set released = snd ` set (nodesMap t)\<close> show "a \<in> set released" by blast
  qed
  have 4: "list_all (\<lambda>c. c = None) st'"
    using r(3,4) rp(3) by (auto simp: list_all_length)
  from 1 r(2) 2 3 r(3) 4 show ?thesis by simp
qed

theorem destructor_releases_once_witness:
  "tree_ok shared_tree
   \<and> deref shared_tree (Some 0) = Some \<lparr>id_node = ''A'', data = ''a'', children = [Some 1]\<rparr>
   \<and> deref shared_tree (Some 2) = Some \<lparr>id_node = ''B'', data = [], children = [Some 1]\<rparr>
   \<and> root shared_tree = Some 0
   \<and> Tree_destroy shared_tree
        = Some ([0, 1, 2], \<lparr>root = None, nodesMap = [], store = [None, None, None]\<rparr>)
   \<and> (\<exists>released t'. Tree_destroy shared_tree = Some (released, t')
          \<and> distinct released
          \<and> set released = {0..<length (store shared_tree)}
          \<and> list_all (\<lambda>c. c = None) (store t'))"
proof -
  have a: "deref shared_tree (Some 0) = Some \<lparr>id_node = ''A'', data = ''a'', children = [Some 1]\<rparr>"
    by code_simp
  have b: "deref shared_tree (Some 2) = Some \<lparr>id_node = ''B'', data = [], children = [Some 1]\<rparr>"
    by code_simp
  have c: "root shared_tree = Some 0" by code_simp
  have d: "Tree_destroy shared_tree
        = Some ([0, 1, 2], \<lparr>root = None, nodesMap = [], store = [None, None, None]\<rparr>)"
    by code_simp
  from destructor_releases_once [OF shared_ok]
  obtain released t' where r: "Tree_destroy shared_tree = Some (released, t')"
      "distinct released" "set released = {0..<length (store shared_tree)}"
      "list_all (\<lambda>c. c = None) (store t')"
    by (elim exE conjE)
  have "Tree_destroy shared_tree = Some (released, t')
          \<and> distinct released
          \<and> set released = {0..<length (store shared_tree)}
          \<and> list_all (\<lambda>c. c = None) (store t')"
    using r by (intro conjI)
  then have e: "\<exists>released t'. Tree_destroy shared_tree = Some (released, t')
          \<and> distinct released
          \<and> set released = {0..<length (store shared_tree)}
          \<and> list_all (\<lambda>c. c = None) (store t')"
    by (intro exI)
  from shared_ok a b c d e show ?thesis by (intro conjI)
qed

subsection \<open>Selections that do not move\<close>

lemma deref_registered:
  assumes "tree_ok t" "deref t p = Some n"
  shows "p \<in> registered t"
proof -
  from deref_cell [OF assms]
  obtain a where a: "p = Some a" "a < length (store t)" "store t ! a = Some n" by blast
  from tree_okD(3) [OF assms(1) a(2)] a(3)
  have "map_of (nodesMap t) (id_node n) = Some (Some a)" by simp
  from map_of_registered [OF this] a(1) show ?thesis by simp
qed

text \<open>
  One turn of the loop on a line that does not move: when \<open>selection\<close> answers with a
  notice and the same node, the session on \<open>l # rest\<close> returns, and what it writes is
  the text and options of the node, the notice, and then what the session on \<open>rest\<close>
  from the same node writes.
\<close>

lemma playLoop_stay:
  assumes ok: "tree_ok t" and d: "deref t current = Some n" and kids: "children n \<noteq> []"
    and sel: "selection current (children n) l = (notice, current)"
  shows "\<exists>out out'. enterNode toText t current = Some (out, children n)
           \<and> playLoop toText t current rest = Some out'
           \<and> playLoop toText t current (l # rest) = Some (out @ [notice] @ out')"
proof -
  from enterNode_total [OF ok d]
  obtain out where out: "enterNode toText t current = Some (out, children n)" by blast
  from playLoop_total [OF ok deref_registered [OF ok d]]
  obtain out' where out': "playLoop toText t current rest = Some out'" by blast
  have "playLoop toText t current (l # rest) = Some (out @ [notice] @ out')"
    using out out' sel kids by simp
  with out out' show ?thesis by blast
qed

text \<open>
  C3, as amended. At a node with at least one child of a well-formed tree, an input line
  that after trimming is non-empty, all digits, of a value \<open>k\<close> that fits \<^verbatim>\<open>int\<close>
  (\<open>k \<le> INT_MAX\<close>) and with \<open>k < 1\<close> or \<open>k\<close> greater than the number of children:
  the session returns; it writes the text and options of the node, then the "Choice out
  of range" notice, and then exactly what the session on the rest of the input from the
  same node writes.
\<close>

theorem playGame_out_of_range:
  assumes "tree_ok t" and "deref t current = Some n" and "children n \<noteq> []"
    and "trim_copy l \<noteq> []" and "list_all isdigit (trim_copy l)"
    and "decimal (trim_copy l) \<le> INT_MAX"
    and "decimal (trim_copy l) < 1 \<or> int (length (children n)) < decimal (trim_copy l)"
  shows "\<exists>out out'. enterNode toText t current = Some (out, children n)
           \<and> selection current (children n) l
               = (line ''Choice out of range. Please select a valid option.'', current)
           \<and> playLoop toText t current rest = Some out'
           \<and> playLoop toText t current (l # rest)
               = Some (out @ [line ''Choice out of range. Please select a valid option.'']
                       @ out')"
proof -
  have sel: "selection current (children n) l
               = (line ''Choice out of range. Please select a valid option.'', current)"
    using assms(4-7) by (auto simp add: selection_def stoi_def Let_def)
  from playLoop_stay [OF assms(1-3) sel, of toText rest] sel show ?thesis by blast
qed

theorem playGame_out_of_range_witness:
  "tree_ok example_tree \<and> deref example_tree (Some 0) = Some example_root
   \<and> children example_root \<noteq> []
   \<and> trim_copy '' 5 '' \<noteq> [] \<and> list_all isdigit (trim_copy '' 5 '')
   \<and> decimal (trim_copy '' 5 '') \<le> INT_MAX
   \<and> (decimal (trim_copy '' 5 '') < 1
        \<or> int (length (children example_root)) < decimal (trim_copy '' 5 ''))
   \<and> (\<exists>out out'. enterNode id example_tree (Some 0) = Some (out, children example_root)
          \<and> selection (Some 0) (children example_root) '' 5 ''
               = (line ''Choice out of range. Please select a valid option.'', Some 0)
          \<and> playLoop id example_tree (Some 0) [] = Some out'
          \<and> playLoop id example_tree (Some 0) ['' 5 '']
               = Some (out @ [line ''Choice out of range. Please select a valid option.'']
                       @ out'))
   \<and> playLoop id example_tree (Some 0) ['' 5 '']
        = Some [line ''start'', line ''Choose your next action:'',
                line ''1. left'', line ''2. right'', ''Selection: '',
                line ''Choice out of range. Please select a valid option.'',
                line ''start'', line ''Choose your next action:'',
                line ''1. left'', line ''2. right'', ''Selection: '',
                endl, line ''Input error or EOF. Ending adventure.'']"
proof -
  have h4: "trim_copy '' 5 '' \<noteq> []" by code_simp
  have h5: "list_all isdigit (trim_copy '' 5 '')" by code_simp
  have h6: "decimal (trim_copy '' 5 '') \<le> INT_MAX" by code_simp
  have h7: "decimal (trim_copy '' 5 '') < 1
            \<or> int (length (children example_root)) < decimal (trim_copy '' 5 '')"
    by code_simp
  have e: "playLoop id example_tree (Some 0) ['' 5 '']
        = Some [line ''start'', line ''Choose your next action:'',
                line ''1. left'', line ''2. right'', ''Selection: '',
                line ''Choice out of range. Please select a valid option.'',
                line ''start'', line ''Choose your next action:'',
                line ''1. left'', line ''2. right'', ''Selection: '',
                endl, line ''Input error or EOF. Ending adventure.'']"
    by code_simp
  note c = playGame_out_of_range
    [OF example_ok example_deref example_children h4 h5 h6 h7, of id "[]"]
  from example_ok example_deref example_children h4 h5 h6 h7 c e show ?thesis
    by (intro conjI)
qed

text \<open>
  C3 as it is stated fails for a digit string too large for \<^verbatim>\<open>int\<close>: the value of
  \<open>99999999999\<close> exceeds the two children, yet the notice written is the one of the
  failed conversion, not "Choice out of range".
\<close>

theorem playGame_out_of_range_counterexample:
  "deref example_tree (Some 0) = Some example_root
   \<and> children example_root \<noteq> []
   \<and> trim_copy ''99999999999'' \<noteq> [] \<and> list_all isdigit (trim_copy ''99999999999'')
   \<and> int (length (children example_root)) < decimal (trim_copy ''99999999999'')
   \<and> selection (Some 0) (children example_root) ''99999999999''
        = (line ''Invalid selection. Please enter a valid number.'', Some 0)
   \<and> selection (Some 0) (children example_root) ''99999999999''
        \<noteq> (line ''Choice out of range. Please select a valid option.'', Some 0)
   \<and> playLoop id example_tree (Some 0) [''99999999999'']
        = Some [line ''start'', line ''Choose your next action:'',
                line ''1. left'', line ''2. right'', ''Selection: '',
                line ''Invalid selection. Please enter a valid number.'',
                line ''start'', line ''Choose your next action:'',
                line ''1. left'', line ''2. right'', ''Selection: '',
                endl, line ''Input error or EOF. Ending adventure.'']"
  by code_simp

text \<open>
  C10. At a node with children of a well-formed tree, an input line that after trimming
  is non-empty and all digits but whose value does not fit \<^verbatim>\<open>int\<close>: the session
  returns; it writes the text and options of the node, then "Invalid selection. Please
  enter a valid number.", and then exactly what the session on the rest of the input
  from the same node writes.
\<close>

theorem playGame_overflow_notice:
  assumes "tree_ok t" and "deref t current = Some n" and "children n \<noteq> []"
    and "trim_copy l \<noteq> []" and "list_all isdigit (trim_copy l)"
    and "INT_MAX < decimal (trim_copy l)"
  shows "\<exists>out out'. enterNode toText t current = Some (out, children n)
           \<and> selection current (children n) l
               = (line ''Invalid selection. Please enter a valid number.'', current)
           \<and> playLoop toText t current rest = Some out'
           \<and> playLoop toText t current (l # rest)
               = Some (out @ [line ''Invalid selection. Please enter a valid number.'']
                       @ out')"
proof -
  have sel: "selection current (children n) l
               = (line ''Invalid selection. Please enter a valid number.'', current)"
    using assms(4-6) by (simp add: selection_def stoi_def Let_def)
  from playLoop_stay [OF assms(1-3) sel, of toText rest] sel show ?thesis by blast
qed

theorem playGame_overflow_notice_witness:
  "tree_ok example_tree \<and> deref example_tree (Some 0) = Some example_root
   \<and> children example_root \<noteq> []
   \<and> trim_copy '' 2147483648 '' \<noteq> [] \<and> list_all isdigit (trim_copy '' 2147483648 '')
   \<and> INT_MAX < decimal (trim_copy '' 2147483648 '')
   \<and> (\<exists>out out'. enterNode id example_tree (Some 0) = Some (out, children example_root)
          \<and> selection (Some 0) (children example_root) '' 2147483648 ''
               = (line ''Invalid selection. Please enter a valid number.'', Some 0)
          \<and> playLoop id example_tree (Some 0) [] = Some out'
          \<and> playLoop id example_tree (Some 0) ['' 2147483648 '']
               = Some (out @ [line ''Invalid selection. Please enter a valid number.'']
                       @ out'))
   \<and> playLoop id example_tree (Some 0) ['' 2147483648 '']
        = Some [line ''start'', line ''Choose your next action:'',
                line ''1. left'', line ''2. right'', ''Selection: '',
                line ''Invalid selection. Please enter a valid number.'',
                line ''start'', line ''Choose your next action:'',
                line ''1. left'', line ''2. right'', ''Selection: '',
                endl, line ''Input error or EOF. Ending adventure.'']"
proof -
  have h4: "trim_copy '' 2147483648 '' \<noteq> []" by code_simp
  have h5: "list_all isdigit (trim_copy '' 2147483648 '')" by code_simp
  have h6: "INT_MAX < decimal (trim_copy '' 2147483648 '')" by code_simp
  have e: "playLoop id example_tree (Some 0) ['' 2147483648 '']
        = Some [line ''start'', line ''Choose your next action:'',
                line ''1. left'', line ''2. right'', ''Selection: '',
                line ''Invalid selection. Please enter a valid number.'',
                line ''start'', line ''Choose your next action:'',
                line ''1. left'', line ''2. right'', ''Selection: '',
                endl, line ''Input error or EOF. Ending adventure.'']"
    by code_simp
  note c = playGame_overflow_notice
    [OF example_ok example_deref example_children h4 h5 h6, of id "[]"]
  from example_ok example_deref example_children h4 h5 h6 c e show ?thesis
    by (intro conjI)
qed

end
